theory Spec2Isabelle
  imports Complex_Main "HOL-Library.Word" "HOL-Library.Log_Nat" "HOL-Library.Multiset"
begin

section \<open>SysMonitor++ (sysmonitor.c): the sampling and derivation engine\<close>

text \<open>
  A shallow embedding of the three samplers of \<^verbatim>\<open>sysmonitor.c\<close>: the CPU usage module
  (\<^verbatim>\<open>parseCPUStats\<close>, \<^verbatim>\<open>calculateCPUUsage\<close>, \<^verbatim>\<open>getCPUUsage\<close>), the memory module
  (\<^verbatim>\<open>getMemoryUsage\<close>) and the process census (\<^verbatim>\<open>isNumeric\<close>, \<^verbatim>\<open>readProcessName\<close>,
  \<^verbatim>\<open>readProcessStat\<close>, \<^verbatim>\<open>compareProcesses\<close>, \<^verbatim>\<open>listTopProcesses\<close>).

  The target is Linux on an LP64 machine (the program reads \<^verbatim>\<open>/proc\<close>): \<^verbatim>\<open>unsigned long\<close> and
  \<^verbatim>\<open>unsigned long long\<close> are \<^typ>\<open>64 word\<close> and wrap around, \<^verbatim>\<open>long\<close> is a 64-bit signed
  integer, \<^verbatim>\<open>int\<close> a 32-bit one, and \<^verbatim>\<open>double\<close> is IEEE 754 binary64 with the default
  rounding (to nearest, ties to even).
\<close>

subsection \<open>The C library: strings\<close>

text \<open>
  A C string is the list of its bytes up to the terminating NUL; a pointer into a string is the
  suffix that starts there. \<open>c_buffer n content\<close> is what \<^verbatim>\<open>read(fd, buffer, n)\<close> followed by
  \<^verbatim>\<open>buffer[bytes_read] = '\0'\<close> leaves in the buffer, seen as a C string: at most \<open>n\<close> bytes of
  the file, ending at the first NUL byte if the file holds one.
\<close>

definition c_buffer :: "nat \<Rightarrow> string \<Rightarrow> string" where
  "c_buffer n content = takeWhile (\<lambda>c. c \<noteq> CHR 0x00) (take n content)"

text \<open>The C string that starts at the first of some bytes: it ends before the first NUL.\<close>

definition c_string :: "string \<Rightarrow> string" where
  "c_string bytes = takeWhile (\<lambda>c. c \<noteq> CHR 0x00) bytes"

text \<open>\<^verbatim>\<open>strstr\<close>: the first position where the needle occurs, or NULL.\<close>

fun c_strstr :: "string \<Rightarrow> string \<Rightarrow> string option" where
  "c_strstr [] needle = (if needle = [] then Some [] else None)"
| "c_strstr (h # hs) needle =
     (if take (length needle) (h # hs) = needle then Some (h # hs) else c_strstr hs needle)"

text \<open>\<^verbatim>\<open>strchr\<close> for a character other than NUL: the first position holding it, or NULL.\<close>

fun c_strchr :: "string \<Rightarrow> char \<Rightarrow> string option" where
  "c_strchr [] c = None"
| "c_strchr (h # hs) c = (if h = c then Some (h # hs) else c_strchr hs c)"

text \<open>\<^verbatim>\<open>isspace\<close> in the C locale: space, \<^verbatim>\<open>\t \n \v \f \r\<close>.\<close>

definition c_isspace :: "char \<Rightarrow> bool" where
  "c_isspace c = (c = CHR '' '' \<or> c = CHR 0x09 \<or> c = CHR 0x0A \<or> c = CHR 0x0B
                  \<or> c = CHR 0x0C \<or> c = CHR 0x0D)"

definition is_digit :: "char \<Rightarrow> bool" where
  "is_digit c = (48 \<le> (of_char c :: nat) \<and> (of_char c :: nat) \<le> 57)"

definition digit_val :: "char \<Rightarrow> int" where
  "digit_val c = int (of_char c) - 48"

definition dec_value :: "string \<Rightarrow> int" where
  "dec_value ds = foldl (\<lambda>acc c. 10 * acc + digit_val c) 0 ds"

text \<open>
  The subject sequence of \<^verbatim>\<open>strtol\<close>, \<^verbatim>\<open>strtoul\<close> and the \<^verbatim>\<open>%lu\<close> conversions in base 10:
  leading white space is skipped, then an optional sign, then the longest run of digits.
  The result is (negative, digits, rest of the string).
\<close>

definition split_number :: "string \<Rightarrow> bool \<times> string \<times> string" where
  "split_number s =
     (let s1 = dropWhile c_isspace s;
          neg = (s1 \<noteq> [] \<and> hd s1 = CHR ''-'');
          s2 = (if s1 \<noteq> [] \<and> (hd s1 = CHR ''-'' \<or> hd s1 = CHR ''+'') then tl s1 else s1)
      in (neg, takeWhile is_digit s2, dropWhile is_digit s2))"

text \<open>
  \<^verbatim>\<open>strtol(p, NULL, 10)\<close>: 0 when there is no digit, and the value clamped to
  \<^verbatim>\<open>LONG_MIN .. LONG_MAX\<close> otherwise.
\<close>

definition c_strtol :: "string \<Rightarrow> int" where
  "c_strtol s =
     (case split_number s of (neg, ds, rest) \<Rightarrow>
        if ds = [] then 0
        else if neg then max (- (2 ^ 63)) (- dec_value ds)
        else min (2 ^ 63 - 1) (dec_value ds))"

text \<open>
  One \<^verbatim>\<open>%lu\<close> or \<^verbatim>\<open>%llu\<close> conversion of \<^verbatim>\<open>sscanf\<close>: it fails when no digit follows the
  optional sign; the value is that of \<^verbatim>\<open>strtoul\<close>: \<^verbatim>\<open>ULONG_MAX\<close> on overflow, negated modulo
  \<open>2^64\<close> after a minus sign. The result is the value and the rest of the input.
\<close>

definition scan_ulong :: "string \<Rightarrow> (64 word \<times> string) option" where
  "scan_ulong s =
     (case split_number s of (neg, ds, rest) \<Rightarrow>
        if ds = [] then None
        else if 2 ^ 64 \<le> dec_value ds then Some (- 1, rest)
        else if neg then Some (- word_of_int (dec_value ds), rest)
        else Some (word_of_int (dec_value ds), rest))"

text \<open>
  Up to \<open>n\<close> conversions in a row, as in the format \<^verbatim>\<open>"%lu %lu"\<close>; the white space between
  two conversions is skipped by the next one. Scanning stops at the first conversion that
  fails, and the length of the result is what \<^verbatim>\<open>sscanf\<close> returns.
\<close>

fun scan_ulongs :: "nat \<Rightarrow> string \<Rightarrow> 64 word list" where
  "scan_ulongs 0 s = []"
| "scan_ulongs (Suc n) s =
     (case scan_ulong s of None \<Rightarrow> [] | Some (v, rest) \<Rightarrow> v # scan_ulongs n rest)"

subsection \<open>IEEE 754 binary64\<close>

text \<open>
  A finite \<^verbatim>\<open>double\<close> is the rational number it denotes. Every arithmetic operation and every
  conversion from an integer returns the exact result rounded to the nearest double, ties to
  the even significand: \<open>fl\<close>. A double has 53 significant bits; \<open>expo x\<close> is the exponent of
  the binade of \<open>x\<close>, which is \<open>\<lfloor>log\<^sub>2 \<bar>x\<bar>\<rfloor>\<close> and at least \<open>-1022\<close> (below, doubles are
  subnormal and equally spaced). Results beyond the largest finite double would be infinite;
  the operands of this program are bounded by \<open>2^64\<close> and \<open>100\<close> and every divisor is checked
  to be non-zero, so none is reached.
\<close>

type_synonym double = rat

definition rne :: "rat \<Rightarrow> int" where
  "rne x = (let f = \<lfloor>x\<rfloor>; d = x - of_int f
            in if d < 1 / 2 then f else if 1 / 2 < d then f + 1
               else if even f then f else f + 1)"

definition pow2 :: "int \<Rightarrow> rat" where
  "pow2 k = (if 0 \<le> k then 2 ^ nat k else 1 / 2 ^ nat (- k))"

definition expo :: "rat \<Rightarrow> int" where
  "expo x = (let a = \<bar>x\<bar> in
     if 1 \<le> a then bitlen \<lfloor>a\<rfloor> - 1
     else if a = 0 then - 1022
     else max (- bitlen (\<lceil>1 / a\<rceil> - 1)) (- 1022))"

definition fl :: "rat \<Rightarrow> double" where
  "fl x = (let u = pow2 (expo x - 52) in of_int (rne (x / u)) * u)"

text \<open>\<^verbatim>\<open>(double) n\<close> for an unsigned 64-bit and for a signed \<^verbatim>\<open>long\<close> value.\<close>

definition double_of_ulong :: "64 word \<Rightarrow> double" where
  "double_of_ulong w = fl (of_int (uint w))"

definition double_of_long :: "int \<Rightarrow> double" where
  "double_of_long n = fl (of_int n)"

definition dmul :: "double \<Rightarrow> double \<Rightarrow> double" where
  "dmul a b = fl (a * b)"

definition ddiv :: "double \<Rightarrow> double \<Rightarrow> double" where
  "ddiv a b = fl (a / b)"

definition dsub :: "double \<Rightarrow> double \<Rightarrow> double" where
  "dsub a b = fl (a - b)"

subsection \<open>Files under /proc\<close>

text \<open>
  What \<^verbatim>\<open>open\<close> followed by one \<^verbatim>\<open>read\<close> gives: \<^verbatim>\<open>open\<close> fails, \<^verbatim>\<open>read\<close> returns -1, or
  \<^verbatim>\<open>read\<close> delivers the bytes of the file (none at all when it returns 0). A file of procfs
  that fits the buffer is delivered by one \<^verbatim>\<open>read\<close>.
\<close>

datatype file_read = OpenFails | ReadFails | Data string

subsection \<open>CPU usage module\<close>

record cpu_snapshot =
  user :: "64 word"
  nice :: "64 word"
  system :: "64 word"
  idle :: "64 word"
  iowait :: "64 word"
  irq :: "64 word"
  softirq :: "64 word"

text \<open>The static variables \<^verbatim>\<open>prev_user\<close>, ..., \<^verbatim>\<open>prev_softirq\<close> and \<^verbatim>\<open>first_run\<close>.\<close>

record cpu_state =
  prev :: cpu_snapshot
  first_run :: bool

definition zero_snapshot :: cpu_snapshot where
  "zero_snapshot = \<lparr>user = 0, nice = 0, system = 0, idle = 0, iowait = 0, irq = 0, softirq = 0\<rparr>"

definition initial_cpu_state :: cpu_state where
  "initial_cpu_state = \<lparr>prev = zero_snapshot, first_run = True\<rparr>"

text \<open>
  \<^verbatim>\<open>parseCPUStats\<close>: \<^verbatim>\<open>strstr(buffer, "cpu ")\<close>, then
  \<^verbatim>\<open>sscanf(line, "cpu %llu %llu %llu %llu %llu %llu %llu", ...)\<close>; \<open>None\<close> is the return value -1.
  The line found starts with \<^verbatim>\<open>cpu\<close>, which the literal of the format consumes.
\<close>

definition parseCPUStats :: "string \<Rightarrow> cpu_snapshot option" where
  "parseCPUStats buffer =
     (case c_strstr buffer ''cpu '' of
        None \<Rightarrow> None
      | Some line \<Rightarrow>
          (case scan_ulongs 7 (drop 3 line) of
             [a, b, c, d, e, f, g] \<Rightarrow>
               Some \<lparr>user = a, nice = b, system = c, idle = d, iowait = e, irq = f, softirq = g\<rparr>
           | _ \<Rightarrow> None))"

definition total_delta :: "cpu_snapshot \<Rightarrow> cpu_snapshot \<Rightarrow> 64 word" where
  "total_delta p c =
     (user c - user p) + (nice c - nice p) + (system c - system p) + (idle c - idle p)
       + (iowait c - iowait p) + (irq c - irq p) + (softirq c - softirq p)"

text \<open>
  \<^verbatim>\<open>calculateCPUUsage\<close>: the value returned and the static variables after the call.
\<close>

definition calculateCPUUsage :: "cpu_state \<Rightarrow> cpu_snapshot \<Rightarrow> double \<times> cpu_state" where
  "calculateCPUUsage st c =
     (if first_run st then (- 1, \<lparr>prev = c, first_run = False\<rparr>)
      else
        let idle_delta = idle c - idle (prev st);
            total = total_delta (prev st) c
        in if total = 0 then (0, st)
           else (dmul 100 (dsub 1 (ddiv (double_of_ulong idle_delta) (double_of_ulong total))),
                 st\<lparr>prev := c\<rparr>))"

text \<open>
  \<^verbatim>\<open>getCPUUsage\<close>: what the call reports (an error message, the "Initializing CPU
  monitoring..." text, or a usage figure) and the static variables after it. The buffer holds
  4096 bytes, of which 4095 are read.
\<close>

datatype cpu_report = CpuOpenError | CpuReadError | CpuParseError | Initializing | CpuUsage double

definition getCPUUsage :: "file_read \<Rightarrow> cpu_state \<Rightarrow> cpu_report \<times> cpu_state" where
  "getCPUUsage proc_stat st =
     (case proc_stat of
        OpenFails \<Rightarrow> (CpuOpenError, st)
      | ReadFails \<Rightarrow> (CpuReadError, st)
      | Data content \<Rightarrow>
          (case parseCPUStats (c_buffer 4095 content) of
             None \<Rightarrow> (CpuParseError, st)
           | Some c \<Rightarrow>
               (let (cpu_usage, st') = calculateCPUUsage st c
                in if cpu_usage < 0 then (Initializing, st') else (CpuUsage cpu_usage, st'))))"

text \<open>
  Two conditions on a call of \<^verbatim>\<open>calculateCPUUsage\<close>, on the retained snapshot \<open>p\<close> and the
  current one \<open>c\<close>: no counter has gone back, and the exact sum of the seven differences,
  which \<open>total_delta\<close> holds modulo \<open>2^64\<close>.
\<close>

definition counters_advance :: "cpu_snapshot \<Rightarrow> cpu_snapshot \<Rightarrow> bool" where
  "counters_advance p c =
     (user p \<le> user c \<and> nice p \<le> nice c \<and> system p \<le> system c \<and> idle p \<le> idle c
      \<and> iowait p \<le> iowait c \<and> irq p \<le> irq c \<and> softirq p \<le> softirq c)"

definition delta_sum :: "cpu_snapshot \<Rightarrow> cpu_snapshot \<Rightarrow> int" where
  "delta_sum p c =
     (uint (user c) - uint (user p)) + (uint (nice c) - uint (nice p))
       + (uint (system c) - uint (system p)) + (uint (idle c) - uint (idle p))
       + (uint (iowait c) - uint (iowait p)) + (uint (irq c) - uint (irq p))
       + (uint (softirq c) - uint (softirq p))"

subsection \<open>Memory usage module\<close>

text \<open>
  Division of \<^verbatim>\<open>long\<close> values in C truncates towards zero.
\<close>

definition c_div :: "int \<Rightarrow> int \<Rightarrow> int" where
  "c_div a b = (if (a < 0) = (b < 0) then \<bar>a\<bar> div \<bar>b\<bar> else - (\<bar>a\<bar> div \<bar>b\<bar>))"

record mem_sample =
  total_mb :: int
  used_mb :: int
  free_mb :: int
  usage_percent :: double

text \<open>
  Step 4 of \<^verbatim>\<open>getMemoryUsage\<close> ("Calculate Statistics"), from the two \<^verbatim>\<open>long\<close> values in
  kB. The values come from \<^verbatim>\<open>strtol\<close>, so they lie in \<open>-2^63 .. 2^63 - 1\<close>; the quotients by
  1024 and their difference stay far inside that range, so no operation on \<^verbatim>\<open>long\<close> overflows
  and \<^typ>\<open>int\<close> arithmetic is what the code computes.
\<close>

definition memory_statistics :: "int \<Rightarrow> int \<Rightarrow> mem_sample" where
  "memory_statistics memTotal_kB memFree_kB =
     (let memTotal_MB = c_div memTotal_kB 1024;
          memFree_MB = c_div memFree_kB 1024;
          memUsed_MB = memTotal_MB - memFree_MB;
          usagePercent =
            (if memTotal_MB > 0
             then dmul (ddiv (double_of_long memUsed_MB) (double_of_long memTotal_MB)) 100
             else 0)
      in \<lparr>total_mb = memTotal_MB, used_mb = memUsed_MB, free_mb = memFree_MB,
          usage_percent = usagePercent\<rparr>)"

text \<open>
  Step 3 ("Parse MemTotal and MemFree"): the value after a label, 0 when \<^verbatim>\<open>strstr\<close> does not
  find the label.
\<close>

definition labelled_value :: "string \<Rightarrow> string \<Rightarrow> int" where
  "labelled_value buffer label =
     (case c_strstr buffer label of
        None \<Rightarrow> 0
      | Some p \<Rightarrow> c_strtol (drop (length label) p))"

datatype mem_report = MemOpenError | MemReadError | MemInfo mem_sample

text \<open>\<^verbatim>\<open>getMemoryUsage\<close>: the buffer holds 2048 bytes, of which 2047 are read.\<close>

definition getMemoryUsage :: "file_read \<Rightarrow> mem_report" where
  "getMemoryUsage proc_meminfo =
     (case proc_meminfo of
        OpenFails \<Rightarrow> MemOpenError
      | ReadFails \<Rightarrow> MemReadError
      | Data content \<Rightarrow>
          (let buffer = c_buffer 2047 content;
               memTotal_kB = labelled_value buffer ''MemTotal:'';
               memFree_kB = labelled_value buffer ''MemFree:''
           in MemInfo (memory_statistics memTotal_kB memFree_kB)))"

subsection \<open>Top processes module\<close>

text \<open>
  \<^verbatim>\<open>struct ProcessInfo\<close>. The array \<^verbatim>\<open>processes\<close> lives on the stack and is not initialised,
  and the census loop stores every field but \<^verbatim>\<open>cpu_percent\<close>: that field is \<open>None\<close> until
  it is assigned.
\<close>

record ProcessInfo =
  pid :: int
  name :: string
  utime :: "64 word"
  stime :: "64 word"
  total_time :: "64 word"
  cpu_percent :: "double option"

definition isNumeric :: "string \<Rightarrow> bool" where
  "isNumeric str = (str \<noteq> [] \<and> list_all is_digit str)"

text \<open>\<^verbatim>\<open>atoi\<close>, which is \<^verbatim>\<open>(int) strtol(s, NULL, 10)\<close>: the low 32 bits, signed.\<close>

definition c_atoi :: "string \<Rightarrow> int" where
  "c_atoi s = sint (word_of_int (c_strtol s) :: 32 word)"

text \<open>
  \<^verbatim>\<open>readProcessName\<close> on the outcome of reading \<^verbatim>\<open>/proc/[pid]/comm\<close>; \<open>None\<close> is the return
  value -1. At most 255 bytes are read, and a newline in the last byte read is cut off.
\<close>

definition readProcessName :: "file_read \<Rightarrow> string option" where
  "readProcessName comm =
     (case comm of
        OpenFails \<Rightarrow> None
      | ReadFails \<Rightarrow> None
      | Data content \<Rightarrow>
          (let bytes = take 255 content
           in if bytes = [] then None
              else Some (takeWhile (\<lambda>c. c \<noteq> CHR 0x00)
                           (if last bytes = CHR 0x0A then butlast bytes else bytes))))"

text \<open>
  The loop of \<^verbatim>\<open>readProcessStat\<close> that skips fields: each round moves to the character after
  the next space; \<open>None\<close> when there is no space left.
\<close>

fun skip_fields :: "nat \<Rightarrow> string \<Rightarrow> string option" where
  "skip_fields 0 ptr = Some ptr"
| "skip_fields (Suc n) ptr =
     (case c_strchr ptr CHR '' '' of None \<Rightarrow> None | Some q \<Rightarrow> skip_fields n (tl q))"

text \<open>
  \<^verbatim>\<open>readProcessStat\<close> on the outcome of reading \<^verbatim>\<open>/proc/[pid]/stat\<close>: \<open>StatOk utime stime\<close>
  for the return value 0, \<open>StatFail\<close> for -1. The buffer holds the bytes read (at most 4095)
  and, after them, the NUL that the function writes. \<^verbatim>\<open>strchr\<close> looks for the parenthesis in
  the string that starts the buffer; \<open>i\<close> is the index where it is found. \<^verbatim>\<open>ptr += 2\<close> moves
  two bytes on in the buffer whatever the byte in between is, so the fields are read from the
  string that starts at index \<open>i + 2\<close>: among the bytes read, or at the NUL written after
  them. When the parenthesis is the last byte read, \<^verbatim>\<open>ptr += 2\<close> moves past that NUL and the
  function goes on reading bytes that this call has not written: \<open>StatUndefined\<close>.
\<close>

datatype stat_result = StatOk "64 word" "64 word" | StatFail | StatUndefined

definition readProcessStat :: "file_read \<Rightarrow> stat_result" where
  "readProcessStat stat =
     (case stat of
        OpenFails \<Rightarrow> StatFail
      | ReadFails \<Rightarrow> StatFail
      | Data content \<Rightarrow>
          (let bytes = take 4095 content
           in if bytes = [] then StatFail
              else
                (case c_strchr (c_string bytes) CHR '')'' of
                   None \<Rightarrow> StatFail
                 | Some ptr \<Rightarrow>
                     (let i = length (c_string bytes) - length ptr
                      in if length bytes < i + 2 then StatUndefined
                         else
                           (case skip_fields 11 (c_string (drop (i + 2) bytes)) of
                              None \<Rightarrow> StatFail
                            | Some ptr' \<Rightarrow>
                                (case scan_ulongs 2 ptr' of
                                   [u, s] \<Rightarrow> StatOk u s
                                 | _ \<Rightarrow> StatFail))))))"

definition compareProcesses :: "ProcessInfo \<Rightarrow> ProcessInfo \<Rightarrow> int" where
  "compareProcesses proc_a proc_b =
     (if total_time proc_b > total_time proc_a then 1
      else if total_time proc_b < total_time proc_a then - 1
      else 0)"

text \<open>
  The process table as one census sees it: the entries of \<^verbatim>\<open>/proc\<close> in the order \<^verbatim>\<open>readdir\<close>
  returns them (\<open>None\<close> when \<^verbatim>\<open>opendir\<close> fails), and the outcome of reading
  \<^verbatim>\<open>/proc/[pid]/stat\<close> and \<^verbatim>\<open>/proc/[pid]/comm\<close> for each pid.
\<close>

record proc_fs =
  proc_dir :: "string list option"
  stat_file :: "int \<Rightarrow> file_read"
  comm_file :: "int \<Rightarrow> file_read"

definition process_record :: "int \<Rightarrow> string \<Rightarrow> 64 word \<Rightarrow> 64 word \<Rightarrow> ProcessInfo" where
  "process_record p n u s =
     \<lparr>pid = p, name = n, utime = u, stime = s, total_time = u + s, cpu_percent = None\<rparr>"

text \<open>
  The \<^verbatim>\<open>while\<close> loop of \<^verbatim>\<open>listTopProcesses\<close> over the remaining directory entries;
  \<open>processes\<close> is the filled part of the array and its length is \<^verbatim>\<open>process_count\<close>. The
  result is \<open>None\<close> when a call of \<^verbatim>\<open>readProcessStat\<close> has no defined outcome.
\<close>

fun read_entries :: "proc_fs \<Rightarrow> string list \<Rightarrow> ProcessInfo list \<Rightarrow> ProcessInfo list option" where
  "read_entries fs [] processes = Some processes"
| "read_entries fs (d_name # rest) processes =
     (if length processes < 1024 then
        if \<not> isNumeric d_name then read_entries fs rest processes
        else
          (case readProcessStat (stat_file fs (c_atoi d_name)) of
             StatUndefined \<Rightarrow> None
           | StatFail \<Rightarrow> read_entries fs rest processes
           | StatOk u s \<Rightarrow>
               read_entries fs rest
                 (processes @
                    [process_record (c_atoi d_name)
                       (case readProcessName (comm_file fs (c_atoi d_name)) of
                          None \<Rightarrow> ''[unknown]''
                        | Some n \<Rightarrow> n)
                       u s]))
      else Some processes)"

text \<open>
  What one directory entry contributes to the array when its turn comes: a record when the
  name is a pid and \<^verbatim>\<open>readProcessStat\<close> returns 0, nothing otherwise. \<open>stat_defined\<close> says
  that the call of \<^verbatim>\<open>readProcessStat\<close> for the entry, if there is one, has a defined outcome.
\<close>

definition entry_record :: "proc_fs \<Rightarrow> string \<Rightarrow> ProcessInfo option" where
  "entry_record fs d_name =
     (if \<not> isNumeric d_name then None
      else
        (case readProcessStat (stat_file fs (c_atoi d_name)) of
           StatOk u s \<Rightarrow>
             Some (process_record (c_atoi d_name)
                     (case readProcessName (comm_file fs (c_atoi d_name)) of
                        None \<Rightarrow> ''[unknown]''
                      | Some n \<Rightarrow> n)
                     u s)
         | _ \<Rightarrow> None))"

definition stat_defined :: "proc_fs \<Rightarrow> string \<Rightarrow> bool" where
  "stat_defined fs d_name =
     (isNumeric d_name \<longrightarrow> readProcessStat (stat_file fs (c_atoi d_name)) \<noteq> StatUndefined)"

text \<open>
  The relative percentages, on the sorted array with \<^verbatim>\<open>process_count > 0\<close>:
  \<^verbatim>\<open>(100.0 * processes[i].total_time) / max_time\<close> under the guard \<^verbatim>\<open>max_time > 0\<close>.
\<close>

definition relative_percent :: "64 word \<Rightarrow> 64 word \<Rightarrow> double" where
  "relative_percent t max_time = ddiv (dmul 100 (double_of_ulong t)) (double_of_ulong max_time)"

definition assign_percentages :: "ProcessInfo list \<Rightarrow> ProcessInfo list" where
  "assign_percentages processes =
     (let max_time = total_time (hd processes)
      in if max_time > 0
         then map (\<lambda>p. p\<lparr>cpu_percent := Some (relative_percent (total_time p) max_time)\<rparr>)
                processes
         else processes)"

text \<open>
  \<^verbatim>\<open>qsort\<close> is the C library's: the standard fixes neither the algorithm nor the order of
  elements that compare equal. It is a parameter of the model; what the standard promises for
  \<^verbatim>\<open>compareProcesses\<close> is \<open>qsort_sorts\<close>: the result is a rearrangement of the array in
  which no element compares greater than a later one.
\<close>

type_synonym qsort_fun = "(ProcessInfo \<Rightarrow> ProcessInfo \<Rightarrow> int) \<Rightarrow> ProcessInfo list \<Rightarrow> ProcessInfo list"

definition qsort_sorts :: "qsort_fun \<Rightarrow> bool" where
  "qsort_sorts qsort =
     (\<forall>xs. mset (qsort compareProcesses xs) = mset xs
           \<and> sorted_wrt (\<lambda>a b. compareProcesses a b \<le> 0) (qsort compareProcesses xs))"

text \<open>One implementation of \<^verbatim>\<open>qsort\<close>: insertion sort.\<close>

fun insert_sorted :: "('a \<Rightarrow> 'a \<Rightarrow> int) \<Rightarrow> 'a \<Rightarrow> 'a list \<Rightarrow> 'a list" where
  "insert_sorted cmp x [] = [x]"
| "insert_sorted cmp x (y # ys) =
     (if cmp x y \<le> 0 then x # y # ys else y # insert_sorted cmp x ys)"

definition insertion_qsort :: "('a \<Rightarrow> 'a \<Rightarrow> int) \<Rightarrow> 'a list \<Rightarrow> 'a list" where
  "insertion_qsort cmp xs = foldr (insert_sorted cmp) xs []"

text \<open>
  Lines 499 to 508 of \<^verbatim>\<open>listTopProcesses\<close>: the whole array after sorting and after the
  percentage step.
\<close>

definition rank_processes :: "qsort_fun \<Rightarrow> ProcessInfo list \<Rightarrow> ProcessInfo list" where
  "rank_processes qsort processes = assign_percentages (qsort compareProcesses processes)"

text \<open>
  \<^verbatim>\<open>listTopProcesses\<close>: an error message, "No processes found.", or the rows displayed (at
  most five). \<open>None\<close> when a call of \<^verbatim>\<open>readProcessStat\<close> has no defined outcome.
\<close>

datatype top_report = ProcDirError | NoProcesses | TopProcesses "ProcessInfo list"

definition listTopProcesses :: "qsort_fun \<Rightarrow> proc_fs \<Rightarrow> top_report option" where
  "listTopProcesses qsort fs =
     (case proc_dir fs of
        None \<Rightarrow> Some ProcDirError
      | Some entries \<Rightarrow>
          (case read_entries fs entries [] of
             None \<Rightarrow> None
           | Some processes \<Rightarrow>
               if length processes = 0 then Some NoProcesses
               else Some (TopProcesses (take 5 (rank_processes qsort processes)))))"

section \<open>Properties\<close>

subsection \<open>Rounding to double\<close>

lemma pow2_powi: "pow2 k = 2 powi k"
  by (simp add: pow2_def power_int_def inverse_eq_divide power_one_over)

lemma pow2_pos: "0 < pow2 k"
  by (simp add: pow2_powi)

lemma pow2_add: "pow2 (a + b) = pow2 a * pow2 b"
  by (simp add: pow2_powi power_int_add)

lemma pow2_mono: "a \<le> b \<Longrightarrow> pow2 a \<le> pow2 b"
  by (simp add: pow2_powi power_int_increasing)

lemma pow2_split52: "pow2 e = 2 ^ 52 * pow2 (e - 52)"
proof -
  have "pow2 e = pow2 (52 + (e - 52))" by (rule arg_cong [of _ _ pow2]) simp
  also have "\<dots> = pow2 52 * pow2 (e - 52)" by (rule pow2_add)
  also have "pow2 52 = 2 ^ 52" by (simp add: pow2_def)
  finally show ?thesis .
qed

lemma pow2_split53: "pow2 (e + 1) = 2 ^ 53 * pow2 (e - 52)"
proof -
  have "pow2 (e + 1) = pow2 (53 + (e - 52))" by (rule arg_cong [of _ _ pow2]) simp
  also have "\<dots> = pow2 53 * pow2 (e - 52)" by (rule pow2_add)
  also have "pow2 53 = 2 ^ 53" by (simp add: pow2_def)
  finally show ?thesis .
qed

text \<open>Rounding to an integer moves to a neighbour, keeps integers and keeps the order.\<close>

lemma rne_cases: "rne x = \<lfloor>x\<rfloor> \<or> rne x = \<lfloor>x\<rfloor> + 1"
  by (simp add: rne_def Let_def)

lemma rne_of_int: "rne (of_int n) = n"
  by (simp add: rne_def Let_def)

lemma rne_mono:
  assumes "x \<le> y"
  shows "rne x \<le> rne y"
proof (cases "\<lfloor>x\<rfloor> = \<lfloor>y\<rfloor>")
  case False
  with assms have "\<lfloor>x\<rfloor> < \<lfloor>y\<rfloor>"
    by (simp add: floor_mono order.not_eq_order_implies_strict)
  moreover have "rne x \<le> \<lfloor>x\<rfloor> + 1" using rne_cases [of x] by auto
  moreover have "\<lfloor>y\<rfloor> \<le> rne y" using rne_cases [of y] by auto
  ultimately show ?thesis by linarith
next
  case True
  then show ?thesis using assms by (auto simp: rne_def Let_def)
qed

text \<open>The binade of \<open>x\<close>: \<open>2 ^ expo x \<le> \<bar>x\<bar> < 2 ^ (expo x + 1)\<close>, above the subnormal range.\<close>

lemma expo_big:
  assumes "1 \<le> \<bar>x\<bar>"
  shows "pow2 (expo x) \<le> \<bar>x\<bar>" and "\<bar>x\<bar> < pow2 (expo x + 1)" and "0 \<le> expo x"
proof -
  let ?n = "\<lfloor>\<bar>x\<bar>\<rfloor>"
  have n: "0 < ?n" using assms by simp
  have e: "expo x = bitlen ?n - 1" using assms by (simp add: expo_def Let_def)
  have b1: "1 \<le> bitlen ?n" using n by (simp add: bitlen_alt_def)
  then show "0 \<le> expo x" by (simp add: e)
  from bitlen_bounds [OF n]
  have lo: "2 ^ nat (bitlen ?n - 1) \<le> ?n" and hi: "?n < 2 ^ nat (bitlen ?n)"
    by auto
  have "pow2 (expo x) = of_int (2 ^ nat (bitlen ?n - 1))" using b1 by (simp add: e pow2_def)
  also have "\<dots> \<le> of_int ?n" using lo by (simp only: of_int_le_iff)
  also have "\<dots> \<le> \<bar>x\<bar>" by simp
  finally show "pow2 (expo x) \<le> \<bar>x\<bar>" .
  have "?n + 1 \<le> 2 ^ nat (bitlen ?n)" using hi by simp
  then have "(of_int (?n + 1) :: rat) \<le> of_int (2 ^ nat (bitlen ?n))"
    by (simp only: of_int_le_iff)
  moreover have "\<bar>x\<bar> < of_int (?n + 1)" by linarith
  moreover have "pow2 (expo x + 1) = of_int (2 ^ nat (bitlen ?n))"
    using b1 by (simp add: e pow2_def)
  ultimately show "\<bar>x\<bar> < pow2 (expo x + 1)" by simp
qed

lemma expo_small:
  assumes "0 < \<bar>x\<bar>" "\<bar>x\<bar> < 1"
  shows "- 1022 < expo x \<longrightarrow> pow2 (expo x) \<le> \<bar>x\<bar>" and "\<bar>x\<bar> < pow2 (expo x + 1)"
proof -
  let ?a = "\<bar>x\<bar>"
  let ?m = "\<lceil>1 / ?a\<rceil>"
  let ?k = "bitlen (?m - 1)"
  have inv: "1 < 1 / ?a" using assms by simp
  then have m: "0 < ?m - 1" by linarith
  have e: "expo x = max (- ?k) (- 1022)" using assms by (simp add: expo_def Let_def)
  have k1: "1 \<le> ?k" using m by (simp add: bitlen_alt_def)
  from bitlen_bounds [OF m]
  have lo: "2 ^ nat (?k - 1) \<le> ?m - 1" and hi: "?m - 1 < 2 ^ nat ?k"
    by auto
  have "1 / ?a \<le> of_int ?m" by linarith
  also have "(of_int ?m :: rat) \<le> of_int (2 ^ nat ?k)"
  proof -
    have "?m \<le> 2 ^ nat ?k" using hi by simp
    then show ?thesis by (simp only: of_int_le_iff)
  qed
  finally have up: "1 / ?a \<le> 2 ^ nat ?k" by simp
  have "(of_int (2 ^ nat (?k - 1)) :: rat) \<le> of_int (?m - 1)"
    using lo by (simp only: of_int_le_iff)
  also have "(of_int (?m - 1) :: rat) < 1 / ?a" by linarith
  finally have dn: "2 ^ nat (?k - 1) < 1 / ?a" by simp
  have A: "pow2 (- ?k) \<le> ?a"
  proof -
    have "1 \<le> ?a * 2 ^ nat ?k" using up assms(1) by (simp add: field_simps)
    then show ?thesis using k1 by (simp add: pow2_def field_simps)
  qed
  have B: "?a < pow2 (- ?k + 1)"
  proof -
    have "?a * 2 ^ nat (?k - 1) < 1" using dn assms(1) by (simp add: field_simps)
    then have "?a < 1 / 2 ^ nat (?k - 1)" by (simp add: field_simps)
    moreover have "pow2 (- ?k + 1) = 1 / 2 ^ nat (?k - 1)" using k1 by (auto simp: pow2_def)
    ultimately show ?thesis by (simp only:)
  qed
  show "- 1022 < expo x \<longrightarrow> pow2 (expo x) \<le> ?a"
    using A by (auto simp: e max_def split: if_splits)
  have "pow2 (- ?k + 1) \<le> pow2 (expo x + 1)" by (rule pow2_mono) (simp add: e)
  with B show "?a < pow2 (expo x + 1)" by simp
qed

lemma expo_upper: "\<bar>x\<bar> < pow2 (expo x + 1)"
proof -
  consider "x = 0" | "0 < \<bar>x\<bar>" "\<bar>x\<bar> < 1" | "1 \<le> \<bar>x\<bar>" by fastforce
  then show ?thesis
  proof cases
    case 1 then show ?thesis by (simp add: pow2_pos)
  next
    case 2 then show ?thesis by (rule expo_small)
  next
    case 3 then show ?thesis by (rule expo_big)
  qed
qed

lemma expo_lower:
  assumes "- 1022 < expo x"
  shows "pow2 (expo x) \<le> \<bar>x\<bar>"
proof -
  consider "x = 0" | "0 < \<bar>x\<bar>" "\<bar>x\<bar> < 1" | "1 \<le> \<bar>x\<bar>" by fastforce
  then show ?thesis
  proof cases
    case 1 then show ?thesis using assms by (simp add: expo_def)
  next
    case 2 then show ?thesis using expo_small(1) assms by blast
  next
    case 3 then show ?thesis by (rule expo_big)
  qed
qed

lemma expo_ge: "- 1022 \<le> expo x"
  using bitlen_nonneg [of "\<lfloor>\<bar>x\<bar>\<rfloor>"] by (auto simp: expo_def Let_def)

lemma expo_mono:
  assumes "\<bar>x\<bar> \<le> \<bar>y\<bar>"
  shows "expo x \<le> expo y"
proof (rule ccontr)
  assume "\<not> expo x \<le> expo y"
  then have lt: "expo y + 1 \<le> expo x" by simp
  with expo_ge [of y] have "- 1022 < expo x" by linarith
  then have "pow2 (expo x) \<le> \<bar>x\<bar>" by (rule expo_lower)
  also have "\<bar>x\<bar> \<le> \<bar>y\<bar>" by (rule assms)
  also have "\<bar>y\<bar> < pow2 (expo y + 1)" by (rule expo_upper)
  also have "\<dots> \<le> pow2 (expo x)" using lt by (rule pow2_mono)
  finally show False by simp
qed

text \<open>
  Rounding keeps the order of non-negative numbers: within a binade because \<open>rne\<close> does, and
  across binades because the powers of two between them are doubles.
\<close>

lemma fl_ge_pow2:
  assumes "- 1022 < expo y" "0 \<le> y"
  shows "pow2 (expo y) \<le> fl y"
proof -
  let ?u = "pow2 (expo y - 52)"
  have u: "0 < ?u" by (rule pow2_pos)
  have split: "pow2 (expo y) = 2 ^ 52 * ?u" by (rule pow2_split52)
  have "pow2 (expo y) \<le> y" using expo_lower [OF assms(1)] assms(2) by simp
  then have "of_int (2 ^ 52) \<le> y / ?u" using u by (simp add: split pos_le_divide_eq)
  then have "rne (of_int (2 ^ 52)) \<le> rne (y / ?u)" by (rule rne_mono)
  then have "2 ^ 52 \<le> rne (y / ?u)" by (simp only: rne_of_int)
  then have "(of_int (2 ^ 52) :: rat) \<le> of_int (rne (y / ?u))" by (simp only: of_int_le_iff)
  then have "2 ^ 52 * ?u \<le> of_int (rne (y / ?u)) * ?u" using u by simp
  then show ?thesis by (simp add: fl_def Let_def split)
qed

lemma fl_le_pow2:
  assumes "0 \<le> x"
  shows "fl x \<le> pow2 (expo x + 1)"
proof -
  let ?u = "pow2 (expo x - 52)"
  have u: "0 < ?u" by (rule pow2_pos)
  have split: "pow2 (expo x + 1) = 2 ^ 53 * ?u" by (rule pow2_split53)
  have "x < pow2 (expo x + 1)" using expo_upper [of x] assms by simp
  then have "x / ?u \<le> of_int (2 ^ 53)" using u by (simp add: split pos_divide_le_eq)
  then have "rne (x / ?u) \<le> rne (of_int (2 ^ 53))" by (rule rne_mono)
  then have "rne (x / ?u) \<le> 2 ^ 53" by (simp only: rne_of_int)
  then have "(of_int (rne (x / ?u)) :: rat) \<le> of_int (2 ^ 53)" by (simp only: of_int_le_iff)
  then have "of_int (rne (x / ?u)) * ?u \<le> 2 ^ 53 * ?u" using u by simp
  then show ?thesis by (simp add: fl_def Let_def split)
qed

lemma fl_mono:
  assumes "0 \<le> x" "x \<le> y"
  shows "fl x \<le> fl y"
proof -
  have le: "expo x \<le> expo y" using assms by (intro expo_mono) simp
  show ?thesis
  proof (cases "expo x = expo y")
    case True
    let ?u = "pow2 (expo y - 52)"
    have u: "0 < ?u" by (rule pow2_pos)
    have "x / ?u \<le> y / ?u" using assms(2) u by (simp add: divide_right_mono)
    then have "rne (x / ?u) \<le> rne (y / ?u)" by (rule rne_mono)
    then have "(of_int (rne (x / ?u)) :: rat) \<le> of_int (rne (y / ?u))"
      by (simp only: of_int_le_iff)
    then show ?thesis using u by (simp add: fl_def Let_def True)
  next
    case False
    with le have lt: "expo x + 1 \<le> expo y" by simp
    with expo_ge [of x] have "- 1022 < expo y" by linarith
    moreover have "0 \<le> y" using assms by simp
    ultimately have "pow2 (expo y) \<le> fl y" by (rule fl_ge_pow2)
    moreover have "fl x \<le> pow2 (expo x + 1)" using assms(1) by (rule fl_le_pow2)
    moreover have "pow2 (expo x + 1) \<le> pow2 (expo y)" using lt by (rule pow2_mono)
    ultimately show ?thesis by linarith
  qed
qed

lemma fl_zero: "fl 0 = 0"
  by (simp add: fl_def rne_def)

lemma fl_one: "fl 1 = 1"
  by code_simp

lemma fl_hundred: "fl 100 = 100"
  by code_simp

text \<open>Integers of at most 53 bits are doubles.\<close>

lemma fl_exact:
  assumes "x / pow2 (expo x - 52) = of_int k"
  shows "fl x = x"
proof -
  have "0 < pow2 (expo x - 52)" by (rule pow2_pos)
  then have "x = of_int k * pow2 (expo x - 52)" using assms by (simp add: field_simps)
  then show ?thesis by (simp add: fl_def Let_def assms rne_of_int)
qed

lemma fl_of_int:
  assumes "\<bar>m\<bar> \<le> 2 ^ 53"
  shows "fl (of_int m) = of_int m"
proof (cases "m = 0")
  case True
  then show ?thesis by (simp add: fl_zero)
next
  case False
  let ?x = "of_int m :: rat"
  have big: "1 \<le> \<bar>?x\<bar>" using False by (simp flip: of_int_abs)
  have "pow2 (expo ?x) \<le> \<bar>?x\<bar>" using big by (rule expo_big)
  also have "\<bar>?x\<bar> \<le> 2 ^ 53"
  proof -
    have "(of_int \<bar>m\<bar> :: rat) \<le> of_int (2 ^ 53)" using assms by (simp only: of_int_le_iff)
    then show ?thesis by simp
  qed
  finally have p: "pow2 (expo ?x) \<le> 2 ^ 53" .
  have e53: "expo ?x \<le> 53"
  proof (rule ccontr)
    assume "\<not> expo ?x \<le> 53"
    then have "54 \<le> expo ?x" by simp
    then have "pow2 54 \<le> pow2 (expo ?x)" by (rule pow2_mono)
    with p show False by (simp add: pow2_def)
  qed
  show ?thesis
  proof (cases "expo ?x = 53")
    case True
    have "2 ^ 53 \<le> \<bar>?x\<bar>" using expo_big(1) [OF big] by (simp add: True pow2_def)
    then have "(of_int (2 ^ 53) :: rat) \<le> of_int \<bar>m\<bar>" by simp
    then have "2 ^ 53 \<le> \<bar>m\<bar>" by (simp only: of_int_le_iff)
    with assms have "\<bar>m\<bar> = 2 ^ 53" by simp
    then have "m = 2 ^ 53 \<or> m = - (2 ^ 53)" by (auto simp: abs_if split: if_splits)
    then have "?x / pow2 (expo ?x - 52) = of_int (m div 2)"
      by (auto simp: True pow2_def)
    then show ?thesis by (rule fl_exact)
  next
    case False
    with e53 have le: "expo ?x \<le> 52" by simp
    have "pow2 (expo ?x - 52) * pow2 (52 - expo ?x) = 1"
      by (simp add: pow2_powi flip: power_int_add)
    then have "?x / pow2 (expo ?x - 52) = ?x * pow2 (52 - expo ?x)"
      using pow2_pos [of "expo ?x - 52"] by (simp add: field_simps)
    also have "\<dots> = of_int (m * 2 ^ nat (52 - expo ?x))" using le by (simp add: pow2_def)
    finally show ?thesis by (rule fl_exact)
  qed
qed








subsection \<open>CPU usage\<close>

text \<open>
  The sum of the deltas as the code computes it is the exact sum modulo \<open>2^64\<close>; when no
  counter has gone back and the exact sum is below \<open>2^64\<close>, the two agree.
\<close>

lemma total_delta_of_int: "total_delta p c = word_of_int (delta_sum p c)"
  by (simp add: total_delta_def delta_sum_def)

lemma total_delta_same: "total_delta p p = 0"
  by (simp add: total_delta_def)

lemma delta_sum_nonneg_parts:
  assumes "counters_advance p c"
  shows "0 \<le> uint (user c) - uint (user p)" "0 \<le> uint (nice c) - uint (nice p)"
    "0 \<le> uint (system c) - uint (system p)" "0 \<le> uint (idle c) - uint (idle p)"
    "0 \<le> uint (iowait c) - uint (iowait p)" "0 \<le> uint (irq c) - uint (irq p)"
    "0 \<le> uint (softirq c) - uint (softirq p)"
  using assms by (simp_all add: counters_advance_def word_le_def)

lemma uint_total_delta:
  assumes "counters_advance p c" "delta_sum p c < 2 ^ 64"
  shows "uint (total_delta p c) = delta_sum p c"
proof -
  have "0 \<le> delta_sum p c"
    using delta_sum_nonneg_parts [OF assms(1)] by (simp add: delta_sum_def)
  then show ?thesis using assms(2)
    by (simp add: total_delta_of_int uint_word_of_int take_bit_int_eq_self)
qed

lemma uint_idle_delta:
  assumes "counters_advance p c"
  shows "uint (idle c - idle p) = uint (idle c) - uint (idle p)"
  using assms by (simp add: counters_advance_def uint_minus_simple_alt)

lemma idle_le_total:
  assumes "counters_advance p c" "delta_sum p c < 2 ^ 64"
  shows "uint (idle c - idle p) \<le> uint (total_delta p c)"
  using delta_sum_nonneg_parts [OF assms(1)]
  by (simp add: uint_total_delta [OF assms] uint_idle_delta [OF assms(1)] delta_sum_def)

lemma zero_total_same:
  assumes "counters_advance p c" "delta_sum p c < 2 ^ 64" "total_delta p c = 0"
  shows "c = p"
proof -
  have "delta_sum p c = 0" using uint_total_delta [OF assms(1,2)] assms(3) by simp
  with delta_sum_nonneg_parts [OF assms(1)]
  have "uint (user c) = uint (user p)" "uint (nice c) = uint (nice p)"
    "uint (system c) = uint (system p)" "uint (idle c) = uint (idle p)"
    "uint (iowait c) = uint (iowait p)" "uint (irq c) = uint (irq p)"
    "uint (softirq c) = uint (softirq p)"
    by (simp_all add: delta_sum_def)
  then show ?thesis by (simp add: cpu_snapshot.equality word_uint_eq_iff)
qed

lemma double_of_ulong_nonneg: "0 \<le> double_of_ulong w"
proof -
  have "(0 :: rat) \<le> of_int (uint w)" using uint_ge_0 [of w] by (simp only: of_int_0_le_iff)
  then have "fl 0 \<le> fl (of_int (uint w))" by (intro fl_mono) simp_all
  then show ?thesis by (simp only: double_of_ulong_def fl_zero)
qed

lemma double_of_ulong_mono:
  assumes "uint v \<le> uint w"
  shows "double_of_ulong v \<le> double_of_ulong w"
proof -
  have "(0 :: rat) \<le> of_int (uint v)" using uint_ge_0 [of v] by (simp only: of_int_0_le_iff)
  moreover have "(of_int (uint v) :: rat) \<le> of_int (uint w)"
    using assms by (simp only: of_int_le_iff)
  ultimately show ?thesis unfolding double_of_ulong_def by (rule fl_mono)
qed

lemma double_of_ulong_ge_one:
  assumes "w \<noteq> 0"
  shows "1 \<le> double_of_ulong w"
proof -
  have "uint w \<noteq> 0" using assms by (simp add: uint_0_iff)
  then have "1 \<le> uint w" using uint_ge_0 [of w] by linarith
  then have "(of_int 1 :: rat) \<le> of_int (uint w)" by (simp only: of_int_le_iff)
  then have "(1 :: rat) \<le> of_int (uint w)" by (simp only: of_int_1)
  then have "fl 1 \<le> fl (of_int (uint w))" by (intro fl_mono) simp_all
  then show ?thesis by (simp only: double_of_ulong_def fl_one)
qed

lemma fl_unit_interval:
  assumes "0 \<le> x" "x \<le> 1"
  shows "0 \<le> fl x" and "fl x \<le> 1"
proof -
  have "fl 0 \<le> fl x" using assms by (intro fl_mono) simp_all
  then show "0 \<le> fl x" by (simp add: fl_zero)
  have "fl x \<le> fl 1" using assms by (intro fl_mono) simp_all
  then show "fl x \<le> 1" by (simp add: fl_one)
qed

lemma usage_bounds:
  assumes "uint i \<le> uint t" "t \<noteq> 0"
  shows "0 \<le> dmul 100 (dsub 1 (ddiv (double_of_ulong i) (double_of_ulong t)))"
    and "dmul 100 (dsub 1 (ddiv (double_of_ulong i) (double_of_ulong t))) \<le> 100"
proof -
  let ?a = "double_of_ulong i" and ?b = "double_of_ulong t"
  have a: "0 \<le> ?a" by (rule double_of_ulong_nonneg)
  have ab: "?a \<le> ?b" using assms(1) by (rule double_of_ulong_mono)
  have b: "1 \<le> ?b" using assms(2) by (rule double_of_ulong_ge_one)
  have r: "0 \<le> ?a / ?b" "?a / ?b \<le> 1" using a ab b by simp_all
  have q: "0 \<le> ddiv ?a ?b" "ddiv ?a ?b \<le> 1"
    unfolding ddiv_def using r by (rule fl_unit_interval)+
  then have "0 \<le> 1 - ddiv ?a ?b" "1 - ddiv ?a ?b \<le> 1" by simp_all
  then have s: "0 \<le> dsub 1 (ddiv ?a ?b)" "dsub 1 (ddiv ?a ?b) \<le> 1"
    unfolding dsub_def by (rule fl_unit_interval)+
  have "fl 0 \<le> fl (100 * dsub 1 (ddiv ?a ?b))" using s by (intro fl_mono) simp_all
  then show "0 \<le> dmul 100 (dsub 1 (ddiv ?a ?b))" by (simp add: dmul_def fl_zero)
  have "fl (100 * dsub 1 (ddiv ?a ?b)) \<le> fl 100" using s by (intro fl_mono) simp_all
  then show "dmul 100 (dsub 1 (ddiv ?a ?b)) \<le> 100" by (simp add: dmul_def fl_hundred)
qed

lemma usage_all_idle:
  assumes "t \<noteq> 0"
  shows "dmul 100 (dsub 1 (ddiv (double_of_ulong t) (double_of_ulong t))) = 0"
proof -
  have "double_of_ulong t \<noteq> 0" using double_of_ulong_ge_one [OF assms] by simp
  then show ?thesis by (simp add: ddiv_def dsub_def dmul_def fl_one fl_zero)
qed

lemma usage_all_busy:
  "dmul 100 (dsub 1 (ddiv (double_of_ulong 0) (double_of_ulong t))) = 100"
proof -
  have "double_of_ulong 0 = 0" by (simp add: double_of_ulong_def fl_zero)
  then show ?thesis by (simp add: ddiv_def dsub_def dmul_def fl_one fl_zero fl_hundred)
qed

text \<open>
  Claim C5. On a call of \<^verbatim>\<open>calculateCPUUsage\<close> that is not the first, when the sum of the
  seven deltas is zero, the result is exactly 0.0, and \<^verbatim>\<open>getCPUUsage\<close> reports it as a usage
  of 0.0, not as an error. The sum is zero when the snapshot equals the retained one, when the
  64-bit sum the code computes is zero, and when the exact sum of the differences is zero.
\<close>

theorem zero_delta_yields_zero:
  assumes "\<not> first_run st"
    and "c = prev st \<or> total_delta (prev st) c = 0 \<or> delta_sum (prev st) c = 0"
  shows "fst (calculateCPUUsage st c) = 0
         \<and> (parseCPUStats (c_buffer 4095 content) = Some c
              \<longrightarrow> fst (getCPUUsage (Data content) st) = CpuUsage 0)"
proof -
  have "total_delta (prev st) c = 0"
    using assms(2) total_delta_same [of "prev st"] total_delta_of_int [of "prev st" c] by auto
  then show ?thesis using assms(1)
    by (simp add: calculateCPUUsage_def getCPUUsage_def)
qed

theorem zero_delta_yields_zero_witness:
  "fst (calculateCPUUsage
          \<lparr>prev = \<lparr>user = 100, nice = 5, system = 30, idle = 1000, iowait = 20, irq = 0,
                     softirq = 3\<rparr>, first_run = False\<rparr>
          \<lparr>user = 100, nice = 5, system = 30, idle = 1000, iowait = 20, irq = 0, softirq = 3\<rparr>) = 0
   \<and> fst (getCPUUsage (Data ''cpu  100 5 30 1000 20 0 3 0 0 0'')
          \<lparr>prev = \<lparr>user = 100, nice = 5, system = 30, idle = 1000, iowait = 20, irq = 0,
                     softirq = 3\<rparr>, first_run = False\<rparr>) = CpuUsage 0"
proof -
  let ?s = "\<lparr>user = 100, nice = 5, system = 30, idle = 1000, iowait = 20, irq = 0,
             softirq = (3 :: 64 word)\<rparr>"
  let ?st = "\<lparr>prev = ?s, first_run = False\<rparr>"
  have p: "parseCPUStats (c_buffer 4095 ''cpu  100 5 30 1000 20 0 3 0 0 0'') = Some ?s"
    by code_simp
  have "\<not> first_run ?st" and "?s = prev ?st \<or> total_delta (prev ?st) ?s = 0 \<or> delta_sum (prev ?st) ?s = 0"
    by simp_all
  from zero_delta_yields_zero [OF this, of "''cpu  100 5 30 1000 20 0 3 0 0 0''"] p
  show ?thesis by simp
qed


text \<open>
  Claim C6, amended. On a call of \<^verbatim>\<open>calculateCPUUsage\<close> that is not the first, when no counter
  has gone back, the seven deltas add up to less than \<open>2^64\<close> (so that \<^verbatim>\<open>total_delta\<close> is their
  sum) and \<^verbatim>\<open>total_delta\<close> is not zero, the usage computed in double arithmetic lies between
  0.0 and 100.0; it is exactly 0.0 when the idle delta is the total delta and exactly 100.0
  when the idle delta is zero.
\<close>

theorem usage_within_bounds:
  assumes "\<not> first_run st" and "counters_advance (prev st) c"
    and "delta_sum (prev st) c < 2 ^ 64" and "total_delta (prev st) c \<noteq> 0"
  shows "0 \<le> fst (calculateCPUUsage st c) \<and> fst (calculateCPUUsage st c) \<le> 100
         \<and> (idle c - idle (prev st) = total_delta (prev st) c
              \<longrightarrow> fst (calculateCPUUsage st c) = 0)
         \<and> (idle c = idle (prev st) \<longrightarrow> fst (calculateCPUUsage st c) = 100)"
proof -
  let ?i = "idle c - idle (prev st)" and ?t = "total_delta (prev st) c"
  have r: "fst (calculateCPUUsage st c)
             = dmul 100 (dsub 1 (ddiv (double_of_ulong ?i) (double_of_ulong ?t)))"
    using assms(1,4) by (simp add: calculateCPUUsage_def Let_def)
  have le: "uint ?i \<le> uint ?t" using assms(2,3) by (rule idle_le_total)
  have "0 \<le> fst (calculateCPUUsage st c)" "fst (calculateCPUUsage st c) \<le> 100"
    unfolding r using le assms(4) by (rule usage_bounds)+
  moreover have "?i = ?t \<longrightarrow> fst (calculateCPUUsage st c) = 0"
    using usage_all_idle [OF assms(4)] by (simp add: r)
  moreover have "idle c = idle (prev st) \<longrightarrow> fst (calculateCPUUsage st c) = 100"
    using usage_all_busy [of ?t] by (simp add: r)
  ultimately show ?thesis by blast
qed

theorem usage_within_bounds_witness:
  "fst (calculateCPUUsage
          \<lparr>prev = \<lparr>user = 100, nice = 5, system = 30, idle = 1000, iowait = 20, irq = 0,
                     softirq = 3\<rparr>, first_run = False\<rparr>
          \<lparr>user = 160, nice = 5, system = 70, idle = 1000, iowait = 20, irq = 0, softirq = 3\<rparr>)
     = 100"
proof -
  let ?p = "\<lparr>user = 100, nice = 5, system = 30, idle = 1000, iowait = 20, irq = 0,
             softirq = (3 :: 64 word)\<rparr>"
  let ?c = "\<lparr>user = 160, nice = 5, system = 70, idle = 1000, iowait = 20, irq = 0,
             softirq = (3 :: 64 word)\<rparr>"
  let ?st = "\<lparr>prev = ?p, first_run = False\<rparr>"
  have "\<not> first_run ?st" by simp
  moreover have "counters_advance (prev ?st) ?c" by (simp add: counters_advance_def)
  moreover have "delta_sum (prev ?st) ?c < 2 ^ 64" by (simp add: delta_sum_def)
  moreover have "total_delta (prev ?st) ?c \<noteq> 0" by (simp add: total_delta_def)
  ultimately show ?thesis using usage_within_bounds [of ?st ?c] by simp
qed

text \<open>
  Without the bound on the sum the claim fails: with deltas \<open>2^63\<close> for user, 1 for nice and
  \<open>2^63\<close> for idle, every delta is non-negative, \<^verbatim>\<open>total_delta\<close> wraps around to 1 and the usage
  is \<open>100 * (1 - 2^63)\<close>, far below zero.
\<close>

theorem usage_bounds_counterexample:
  "\<not> first_run \<lparr>prev = zero_snapshot, first_run = False\<rparr>
   \<and> counters_advance zero_snapshot
        \<lparr>user = 9223372036854775808, nice = 1, system = 0, idle = 9223372036854775808,
           iowait = 0, irq = 0, softirq = 0\<rparr>
   \<and> total_delta zero_snapshot
        \<lparr>user = 9223372036854775808, nice = 1, system = 0, idle = 9223372036854775808,
           iowait = 0, irq = 0, softirq = 0\<rparr> = 1
   \<and> fst (calculateCPUUsage \<lparr>prev = zero_snapshot, first_run = False\<rparr>
        \<lparr>user = 9223372036854775808, nice = 1, system = 0, idle = 9223372036854775808,
           iowait = 0, irq = 0, softirq = 0\<rparr>) = - 922337203685477580800"
  by code_simp

text \<open>
  Claim C3, amended. After a call of \<^verbatim>\<open>calculateCPUUsage\<close> with snapshot \<open>c\<close>, the retained
  snapshot is \<open>c\<close> on the first run, and on a later run when no counter has gone back and the
  seven deltas add up to less than \<open>2^64\<close>: on the zero-delta path, which returns before the
  assignments, because \<open>c\<close> is then the retained snapshot already.
\<close>

theorem previous_snapshot_advances:
  assumes "first_run st \<or> (counters_advance (prev st) c \<and> delta_sum (prev st) c < 2 ^ 64)"
  shows "prev (snd (calculateCPUUsage st c)) = c \<and> \<not> first_run (snd (calculateCPUUsage st c))"
proof (cases "first_run st")
  case True
  then show ?thesis by (simp add: calculateCPUUsage_def)
next
  case False
  with assms have adv: "counters_advance (prev st) c" and sm: "delta_sum (prev st) c < 2 ^ 64"
    by simp_all
  show ?thesis
  proof (cases "total_delta (prev st) c = 0")
    case True
    with adv sm have "c = prev st" by (rule zero_total_same)
    then show ?thesis using False by (simp add: calculateCPUUsage_def total_delta_same)
  next
    case nz: False
    then show ?thesis using False by (simp add: calculateCPUUsage_def Let_def)
  qed
qed

theorem previous_snapshot_advances_witness:
  "prev (snd (calculateCPUUsage
          \<lparr>prev = \<lparr>user = 100, nice = 5, system = 30, idle = 1000, iowait = 20, irq = 0,
                     softirq = 3\<rparr>, first_run = False\<rparr>
          \<lparr>user = 160, nice = 5, system = 70, idle = 1100, iowait = 20, irq = 0, softirq = 3\<rparr>))
     = \<lparr>user = 160, nice = 5, system = 70, idle = 1100, iowait = 20, irq = 0, softirq = 3\<rparr>"
proof -
  let ?p = "\<lparr>user = 100, nice = 5, system = 30, idle = 1000, iowait = 20, irq = 0,
             softirq = (3 :: 64 word)\<rparr>"
  let ?c = "\<lparr>user = 160, nice = 5, system = 70, idle = 1100, iowait = 20, irq = 0,
             softirq = (3 :: 64 word)\<rparr>"
  let ?st = "\<lparr>prev = ?p, first_run = False\<rparr>"
  have "counters_advance (prev ?st) ?c" by (simp add: counters_advance_def)
  moreover have "delta_sum (prev ?st) ?c < 2 ^ 64" by (simp add: delta_sum_def)
  ultimately show ?thesis using previous_snapshot_advances [of ?st ?c] by simp
qed

text \<open>
  Without the bound on the sum the claim fails. After a first call with the all-zero snapshot,
  a call with user = nice = \<open>2^63\<close> has no counter below the retained one, yet \<^verbatim>\<open>total_delta\<close>
  wraps around to 0, the function returns on the zero-delta path and the retained snapshot
  stays all-zero.
\<close>

theorem previous_snapshot_counterexample:
  "\<not> first_run (snd (calculateCPUUsage initial_cpu_state zero_snapshot))
   \<and> counters_advance (prev (snd (calculateCPUUsage initial_cpu_state zero_snapshot)))
        \<lparr>user = 9223372036854775808, nice = 9223372036854775808, system = 0, idle = 0,
           iowait = 0, irq = 0, softirq = 0\<rparr>
   \<and> prev (snd (calculateCPUUsage (snd (calculateCPUUsage initial_cpu_state zero_snapshot))
        \<lparr>user = 9223372036854775808, nice = 9223372036854775808, system = 0, idle = 0,
           iowait = 0, irq = 0, softirq = 0\<rparr>))
     \<noteq> \<lparr>user = 9223372036854775808, nice = 9223372036854775808, system = 0, idle = 0,
           iowait = 0, irq = 0, softirq = 0\<rparr>"
  by (simp add: calculateCPUUsage_def initial_cpu_state_def zero_snapshot_def
      counters_advance_def total_delta_def)

text \<open>
  Claim C4, amended. On the first call, with any snapshot parsed from \<^verbatim>\<open>/proc/stat\<close>,
  \<^verbatim>\<open>calculateCPUUsage\<close> returns the sentinel -1.0 and stores the snapshot, and \<^verbatim>\<open>getCPUUsage\<close>
  reports the warmup text. On a later call, when no counter has gone back and the seven
  deltas add up to less than \<open>2^64\<close>, \<^verbatim>\<open>getCPUUsage\<close> reports a percentage between 0.0 and
  100.0, and the call after that is not a first call either.
\<close>

theorem warmup_then_percentage:
  assumes "parseCPUStats (c_buffer 4095 content) = Some c"
  shows "(first_run st \<longrightarrow>
            fst (calculateCPUUsage st c) = - 1
            \<and> getCPUUsage (Data content) st = (Initializing, \<lparr>prev = c, first_run = False\<rparr>))
         \<and> (\<not> first_run st \<and> counters_advance (prev st) c \<and> delta_sum (prev st) c < 2 ^ 64 \<longrightarrow>
            (\<exists>p. fst (getCPUUsage (Data content) st) = CpuUsage p \<and> 0 \<le> p \<and> p \<le> 100)
            \<and> \<not> first_run (snd (getCPUUsage (Data content) st)))"
proof (intro conjI impI)
  assume "first_run st"
  then show "fst (calculateCPUUsage st c) = - 1"
    and "getCPUUsage (Data content) st = (Initializing, \<lparr>prev = c, first_run = False\<rparr>)"
    using assms by (simp_all add: calculateCPUUsage_def getCPUUsage_def)
next
  assume h: "\<not> first_run st \<and> counters_advance (prev st) c \<and> delta_sum (prev st) c < 2 ^ 64"
  let ?u = "fst (calculateCPUUsage st c)"
  have nonneg: "0 \<le> ?u \<and> ?u \<le> 100"
  proof (cases "total_delta (prev st) c = 0")
    case True
    then show ?thesis using h by (simp add: calculateCPUUsage_def)
  next
    case False
    have r: "?u = dmul 100 (dsub 1 (ddiv (double_of_ulong (idle c - idle (prev st)))
                                       (double_of_ulong (total_delta (prev st) c))))"
      using h False by (simp add: calculateCPUUsage_def Let_def)
    have "uint (idle c - idle (prev st)) \<le> uint (total_delta (prev st) c)"
      using h by (intro idle_le_total) simp_all
    then show ?thesis unfolding r using False usage_bounds by blast
  qed
  have g: "getCPUUsage (Data content) st = (CpuUsage ?u, snd (calculateCPUUsage st c))"
    using assms nonneg by (simp add: getCPUUsage_def split_beta)
  show "\<exists>p. fst (getCPUUsage (Data content) st) = CpuUsage p \<and> 0 \<le> p \<and> p \<le> 100"
    using nonneg by (simp add: g)
  show "\<not> first_run (snd (getCPUUsage (Data content) st))"
    using h by (simp add: g calculateCPUUsage_def Let_def)
qed

theorem warmup_then_percentage_witness:
  "getCPUUsage (Data ''cpu  100 5 30 1000 20 0 3 0 0 0'') initial_cpu_state
     = (Initializing,
        \<lparr>prev = \<lparr>user = 100, nice = 5, system = 30, idle = 1000, iowait = 20, irq = 0,
                   softirq = 3\<rparr>, first_run = False\<rparr>)
   \<and> (\<exists>p. fst (getCPUUsage (Data ''cpu  150 5 80 1100 20 0 3 0 0 0'')
               \<lparr>prev = \<lparr>user = 100, nice = 5, system = 30, idle = 1000, iowait = 20,
                          irq = 0, softirq = 3\<rparr>, first_run = False\<rparr>) = CpuUsage p
          \<and> 0 \<le> p \<and> p \<le> 100)"
proof -
  let ?a = "\<lparr>user = 100, nice = 5, system = 30, idle = 1000, iowait = 20, irq = 0,
             softirq = (3 :: 64 word)\<rparr>"
  let ?b = "\<lparr>user = 150, nice = 5, system = 80, idle = 1100, iowait = 20, irq = 0,
             softirq = (3 :: 64 word)\<rparr>"
  let ?st = "\<lparr>prev = ?a, first_run = False\<rparr>"
  have pa: "parseCPUStats (c_buffer 4095 ''cpu  100 5 30 1000 20 0 3 0 0 0'') = Some ?a"
    by code_simp
  have pb: "parseCPUStats (c_buffer 4095 ''cpu  150 5 80 1100 20 0 3 0 0 0'') = Some ?b"
    by code_simp
  have adv: "counters_advance (prev ?st) ?b" by (simp add: counters_advance_def)
  have sm: "delta_sum (prev ?st) ?b < 2 ^ 64" by (simp add: delta_sum_def)
  show ?thesis
    using warmup_then_percentage [OF pa, of initial_cpu_state]
      warmup_then_percentage [OF pb, of ?st] adv sm
    by (simp add: initial_cpu_state_def)
qed

text \<open>
  \<^verbatim>\<open>getCPUUsage\<close> takes every negative result for the sentinel, so a later call can report the
  warmup text again: here iowait goes back by one tick between the two samples (idle +2,
  iowait -1), \<^verbatim>\<open>total_delta\<close> is 1, the usage is \<open>100 * (1 - 2 / 1) = -100\<close>, and the second
  call reports "Initializing CPU monitoring...".
\<close>

theorem warmup_counterexample:
  "fst (getCPUUsage (Data ''cpu  100 5 30 1000 20 0 3 0 0 0'') initial_cpu_state) = Initializing
   \<and> fst (getCPUUsage (Data ''cpu  100 5 30 1002 19 0 3 0 0 0'')
          (snd (getCPUUsage (Data ''cpu  100 5 30 1000 20 0 3 0 0 0'') initial_cpu_state)))
       = Initializing"
  by code_simp

subsection \<open>Memory usage\<close>

lemma c_div_trunc: "c_div a 1024 = sgn a * (\<bar>a\<bar> div 1024)"
  by (auto simp: c_div_def sgn_if)

lemma c_div_nonneg: "0 \<le> a \<Longrightarrow> c_div a 1024 = a div 1024"
  by (simp add: c_div_def)

lemma double_of_long_ge_one:
  assumes "0 < n"
  shows "1 \<le> double_of_long n"
proof -
  have "1 \<le> n" using assms by simp
  then have "(of_int 1 :: rat) \<le> of_int n" by (simp only: of_int_le_iff)
  then have "(1 :: rat) \<le> of_int n" by (simp only: of_int_1)
  then have "fl 1 \<le> fl (of_int n)" by (intro fl_mono) simp_all
  then show ?thesis by (simp only: double_of_long_def fl_one)
qed





text \<open>
  Claim C8, amended. For every text of \<^verbatim>\<open>/proc/meminfo\<close> the call returns a sample. When the
  label MemTotal is missing, the total is 0 and the percentage 0.0. When the label MemFree is
  missing, free is 0, used equals total, and the percentage is 100.0 if the total in MB is
  positive and 0.0 otherwise.
\<close>

theorem missing_label_yields_zero:
  "(\<exists>m. getMemoryUsage (Data content) = MemInfo m)
   \<and> (c_strstr (c_buffer 2047 content) ''MemTotal:'' = None \<longrightarrow>
        (\<exists>m. getMemoryUsage (Data content) = MemInfo m \<and> total_mb m = 0 \<and> usage_percent m = 0))
   \<and> (c_strstr (c_buffer 2047 content) ''MemFree:'' = None \<longrightarrow>
        (\<exists>m. getMemoryUsage (Data content) = MemInfo m \<and> free_mb m = 0
               \<and> used_mb m = total_mb m
               \<and> usage_percent m = (if 0 < total_mb m then 100 else 0)))"
proof (intro conjI impI)
  show "\<exists>m. getMemoryUsage (Data content) = MemInfo m"
    by (simp add: getMemoryUsage_def Let_def)
next
  assume "c_strstr (c_buffer 2047 content) ''MemTotal:'' = None"
  then have "labelled_value (c_buffer 2047 content) ''MemTotal:'' = 0"
    by (simp add: labelled_value_def)
  then show "\<exists>m. getMemoryUsage (Data content) = MemInfo m \<and> total_mb m = 0 \<and> usage_percent m = 0"
    by (simp add: getMemoryUsage_def Let_def memory_statistics_def c_div_def)
next
  assume "c_strstr (c_buffer 2047 content) ''MemFree:'' = None"
  then have z: "labelled_value (c_buffer 2047 content) ''MemFree:'' = 0"
    by (simp add: labelled_value_def)
  let ?T = "c_div (labelled_value (c_buffer 2047 content) ''MemTotal:'') 1024"
  have "0 < ?T \<Longrightarrow> dmul (ddiv (double_of_long ?T) (double_of_long ?T)) 100 = 100"
  proof -
    assume "0 < ?T"
    then have "double_of_long ?T \<noteq> 0" using double_of_long_ge_one [of ?T] by simp
    then show ?thesis by (simp add: ddiv_def dmul_def fl_one fl_hundred)
  qed
  then show "\<exists>m. getMemoryUsage (Data content) = MemInfo m \<and> free_mb m = 0
               \<and> used_mb m = total_mb m
               \<and> usage_percent m = (if 0 < total_mb m then 100 else 0)"
    by (simp add: getMemoryUsage_def Let_def memory_statistics_def z c_div_def [of 0])
qed

theorem missing_label_yields_zero_witness:
  "c_strstr (c_buffer 2047 ''MemTotal:       16777216 kB\<newline>'') ''MemFree:'' = None
   \<and> (\<exists>m. getMemoryUsage (Data ''MemTotal:       16777216 kB\<newline>'') = MemInfo m
          \<and> free_mb m = 0 \<and> used_mb m = total_mb m
          \<and> usage_percent m = (if 0 < total_mb m then 100 else 0))"
proof -
  have n: "c_strstr (c_buffer 2047 ''MemTotal:       16777216 kB\<newline>'') ''MemFree:'' = None"
    by code_simp
  with missing_label_yields_zero [of "''MemTotal:       16777216 kB\<newline>''"]
  show ?thesis by blast
qed

text \<open>
  A text without MemFree whose total is below one MB: the percentage is 0.0, not 100.0.
\<close>

theorem missing_label_counterexample:
  "c_strstr (c_buffer 2047 ''MemTotal:            512 kB\<newline>'') ''MemFree:'' = None
   \<and> getMemoryUsage (Data ''MemTotal:            512 kB\<newline>'')
     = MemInfo \<lparr>total_mb = 0, used_mb = 0, free_mb = 0, usage_percent = 0\<rparr>"
  by code_simp

subsection \<open>Process census\<close>

text \<open>
  The loop over the directory entries, as long as every call of \<^verbatim>\<open>readProcessStat\<close> has a
  defined outcome: the array holds, in the order of the directory, the records of the entries
  that are pids with a readable stat record, cut off at 1024.
\<close>

lemma read_entries_step:
  assumes "length processes < 1024" "stat_defined fs d"
  shows "read_entries fs (d # rest) processes
           = read_entries fs rest
               (case entry_record fs d of None \<Rightarrow> processes | Some r \<Rightarrow> processes @ [r])"
  using assms
  by (auto simp: entry_record_def stat_defined_def split: stat_result.splits)

lemma read_entries_full:
  assumes "1024 \<le> length processes"
  shows "read_entries fs entries processes = Some processes"
  using assms by (cases entries) simp_all

lemma read_entries_eq:
  assumes "\<forall>d\<in>set entries. stat_defined fs d" "length processes \<le> 1024"
  shows "read_entries fs entries processes
           = Some (take 1024 (processes @ List.map_filter (entry_record fs) entries))"
  using assms
proof (induction entries arbitrary: processes)
  case Nil
  then show ?case by simp
next
  case (Cons d rest)
  show ?case
  proof (cases "length processes < 1024")
    case False
    with Cons.prems have "length processes = 1024" by simp
    then show ?thesis by (simp add: read_entries_full)
  next
    case True
    have d: "stat_defined fs d" using Cons.prems by simp
    show ?thesis
    proof (cases "entry_record fs d")
      case None
      then show ?thesis
        using Cons.IH [of processes] Cons.prems
        by (simp add: read_entries_step [OF True d] del: read_entries.simps)
    next
      case (Some r)
      have "length (processes @ [r]) \<le> 1024" using True by simp
      then show ?thesis
        using Cons.IH [of "processes @ [r]"] Cons.prems Some
        by (simp add: read_entries_step [OF True d] del: read_entries.simps)
    qed
  qed
qed

lemma read_entries_length:
  assumes "read_entries fs entries processes = Some result" "length processes \<le> 1024"
  shows "length result \<le> 1024"
  using assms
proof (induction entries arbitrary: processes)
  case Nil
  then show ?case by simp
next
  case (Cons d rest)
  show ?case
  proof (cases "length processes < 1024")
    case False
    then show ?thesis using Cons.prems by simp
  next
    case True
    then show ?thesis
      using Cons.prems Cons.IH [of processes]
        Cons.IH [of "processes @ [r]" for r]
      by (auto split: if_splits stat_result.splits)
  qed
qed

lemma map_filter_None:
  assumes "f d = None"
  shows "List.map_filter f (es1 @ d # es2) = List.map_filter f (es1 @ es2)"
  using assms by (simp add: List.map_filter_def)

lemma map_filter_Some:
  assumes "f d = Some r"
  shows "List.map_filter f (es1 @ d # es2) = List.map_filter f es1 @ r # List.map_filter f es2"
  using assms by (simp add: List.map_filter_def)

lemma map_filter_replicate:
  assumes "f x = Some y"
  shows "List.map_filter f (replicate n x) = replicate n y"
  using assms by (induction n) simp_all

text \<open>
  What the loop does with the failures that \<^verbatim>\<open>readProcessStat\<close> and \<^verbatim>\<open>readProcessName\<close>
  report, in a census in which every call of \<^verbatim>\<open>readProcessStat\<close> has a defined outcome. An
  entry \<open>d\<close> that is no pid, or whose \<^verbatim>\<open>readProcessStat\<close> returns -1, changes nothing: the
  census is the one of the directory without \<open>d\<close>. An entry whose stat record is read and
  whose name is not is kept under the name \<^verbatim>\<open>[unknown]\<close>. The report is "No processes found."
  when no record is collected, and the first five ranked records otherwise.
\<close>

lemma census_of_defined_reads:
  assumes "proc_dir fs = Some (es1 @ d # es2)"
    and "\<forall>e\<in>set (es1 @ d # es2). stat_defined fs e"
  shows "read_entries fs (es1 @ d # es2) []
           = Some (take 1024 (List.map_filter (entry_record fs) (es1 @ d # es2)))
   \<and> listTopProcesses qsort fs
       = Some (if take 1024 (List.map_filter (entry_record fs) (es1 @ d # es2)) = []
               then NoProcesses
               else TopProcesses
                      (take 5 (rank_processes qsort
                         (take 1024 (List.map_filter (entry_record fs) (es1 @ d # es2))))))
   \<and> (\<not> isNumeric d \<or> readProcessStat (stat_file fs (c_atoi d)) = StatFail \<longrightarrow>
        read_entries fs (es1 @ d # es2) [] = read_entries fs (es1 @ es2) [])
   \<and> (isNumeric d \<and> readProcessStat (stat_file fs (c_atoi d)) = StatOk u s
        \<and> readProcessName (comm_file fs (c_atoi d)) = None \<longrightarrow>
        read_entries fs (es1 @ d # es2) []
          = Some (take 1024 (List.map_filter (entry_record fs) es1
                              @ process_record (c_atoi d) ''[unknown]'' u s
                              # List.map_filter (entry_record fs) es2)))"
proof -
  let ?all = "es1 @ d # es2"
  have eq: "read_entries fs ?all [] = Some (take 1024 (List.map_filter (entry_record fs) ?all))"
    using read_entries_eq [OF assms(2), of "[]"] by simp
  have rest: "\<forall>e\<in>set (es1 @ es2). stat_defined fs e" using assms(2) by auto
  have eq': "read_entries fs (es1 @ es2) []
               = Some (take 1024 (List.map_filter (entry_record fs) (es1 @ es2)))"
    using read_entries_eq [OF rest, of "[]"] by simp
  have b: "listTopProcesses qsort fs
       = Some (if take 1024 (List.map_filter (entry_record fs) ?all) = []
               then NoProcesses
               else TopProcesses
                      (take 5 (rank_processes qsort
                         (take 1024 (List.map_filter (entry_record fs) ?all)))))"
    by (simp add: listTopProcesses_def assms(1) eq del: read_entries.simps)
  have c: "\<not> isNumeric d \<or> readProcessStat (stat_file fs (c_atoi d)) = StatFail \<longrightarrow>
        read_entries fs ?all [] = read_entries fs (es1 @ es2) []"
  proof
    assume "\<not> isNumeric d \<or> readProcessStat (stat_file fs (c_atoi d)) = StatFail"
    then have "entry_record fs d = None" by (auto simp: entry_record_def)
    then show "read_entries fs ?all [] = read_entries fs (es1 @ es2) []"
      by (simp only: eq eq' map_filter_None)
  qed
  have e: "isNumeric d \<and> readProcessStat (stat_file fs (c_atoi d)) = StatOk u s
        \<and> readProcessName (comm_file fs (c_atoi d)) = None \<longrightarrow>
        read_entries fs ?all []
          = Some (take 1024 (List.map_filter (entry_record fs) es1
                              @ process_record (c_atoi d) ''[unknown]'' u s
                              # List.map_filter (entry_record fs) es2))"
  proof
    assume "isNumeric d \<and> readProcessStat (stat_file fs (c_atoi d)) = StatOk u s
        \<and> readProcessName (comm_file fs (c_atoi d)) = None"
    then have "entry_record fs d = Some (process_record (c_atoi d) ''[unknown]'' u s)"
      by (simp add: entry_record_def)
    then show "read_entries fs ?all []
          = Some (take 1024 (List.map_filter (entry_record fs) es1
                              @ process_record (c_atoi d) ''[unknown]'' u s
                              # List.map_filter (entry_record fs) es2))"
      by (simp only: eq map_filter_Some)
  qed
  from eq b c e show ?thesis by blast
qed

text \<open>
  Claim C9. A stat record that is cut off right after its first closing parenthesis is a
  malformed record, yet \<^verbatim>\<open>readProcessStat\<close> does not return -1 for it: \<^verbatim>\<open>ptr += 2\<close> is not
  followed by a check, as every later step of the pointer is, and the function goes on in
  bytes that this call has not written. The census of a directory that holds such an entry
  has no defined outcome, whereas the census of the directory without it collects the other
  process: the entry is not skipped.
\<close>

theorem census_cut_stat_record:
  "readProcessStat (Data ''2 (b)'') = StatUndefined
   \<and> read_entries
       \<lparr>proc_dir = Some [''1'', ''2''],
          stat_file = (\<lambda>p. if p = 1 then Data ''1 (a) S 1 2 3 4 5 6 7 8 9 10 20 30 5''
                           else Data ''2 (b)''),
          comm_file = (\<lambda>p. Data ''a\<newline>'')\<rparr>
       [''1'', ''2''] [] = None
   \<and> listTopProcesses insertion_qsort
       \<lparr>proc_dir = Some [''1'', ''2''],
          stat_file = (\<lambda>p. if p = 1 then Data ''1 (a) S 1 2 3 4 5 6 7 8 9 10 20 30 5''
                           else Data ''2 (b)''),
          comm_file = (\<lambda>p. Data ''a\<newline>'')\<rparr> = None
   \<and> read_entries
       \<lparr>proc_dir = Some [''1'', ''2''],
          stat_file = (\<lambda>p. if p = 1 then Data ''1 (a) S 1 2 3 4 5 6 7 8 9 10 20 30 5''
                           else Data ''2 (b)''),
          comm_file = (\<lambda>p. Data ''a\<newline>'')\<rparr>
       [''1''] [] = Some [process_record 1 ''a'' 20 30]"
  by code_simp

text \<open>
  Claim C10. The array never holds more than 1024 records, whatever it held when the loop was
  entered with at most 1024; and when every call of \<^verbatim>\<open>readProcessStat\<close> has a defined outcome,
  a census collects the first 1024 qualifying entries of the directory and leaves out the
  rest.
\<close>

theorem census_at_most_1024:
  "(\<forall>processes result. length processes \<le> 1024 \<longrightarrow>
       read_entries fs entries processes = Some result \<longrightarrow> length result \<le> 1024)
   \<and> ((\<forall>e\<in>set entries. stat_defined fs e) \<longrightarrow>
       read_entries fs entries []
         = Some (take 1024 (List.map_filter (entry_record fs) entries)))"
proof (intro conjI allI impI)
  fix processes result
  assume "length processes \<le> 1024" "read_entries fs entries processes = Some result"
  then show "length result \<le> 1024" using read_entries_length by blast
next
  assume "\<forall>e\<in>set entries. stat_defined fs e"
  then show "read_entries fs entries []
         = Some (take 1024 (List.map_filter (entry_record fs) entries))"
    using read_entries_eq [of entries fs "[]"] by simp
qed

theorem census_at_most_1024_witness:
  "read_entries
     \<lparr>proc_dir = Some (replicate 1030 ''7''),
        stat_file = (\<lambda>p. Data ''7 (a) S 1 2 3 4 5 6 7 8 9 10 20 30 5''),
        comm_file = (\<lambda>p. Data ''a\<newline>'')\<rparr>
     (replicate 1030 ''7'') []
   = Some (replicate 1024 (process_record 7 ''a'' 20 30))"
proof -
  let ?fs = "\<lparr>proc_dir = Some (replicate 1030 ''7''),
        stat_file = (\<lambda>p :: int. Data ''7 (a) S 1 2 3 4 5 6 7 8 9 10 20 30 5''),
        comm_file = (\<lambda>p :: int. Data ''a\<newline>'')\<rparr>"
  have d: "stat_defined ?fs ''7''" by code_simp
  have r: "entry_record ?fs ''7'' = Some (process_record 7 ''a'' 20 30)" by code_simp
  have "\<forall>e\<in>set (replicate 1030 ''7''). stat_defined ?fs e" using d by simp
  with census_at_most_1024 [of ?fs "replicate 1030 ''7''"]
  have "read_entries ?fs (replicate 1030 ''7'') []
         = Some (take 1024 (List.map_filter (entry_record ?fs) (replicate 1030 ''7'')))"
    by blast
  then show ?thesis by (simp add: map_filter_replicate [where f = "entry_record ?fs", OF r] del: read_entries.simps)
qed

text \<open>
  \<^verbatim>\<open>strchr\<close> returns the first occurrence: nothing before the position found holds the
  character.
\<close>

lemma c_strchr_first:
  assumes "c_strchr s c = Some p"
  shows "\<exists>pre rest. s = pre @ c # rest \<and> c \<notin> set pre \<and> p = c # rest"
  using assms
proof (induction s)
  case Nil
  then show ?case by simp
next
  case (Cons h hs)
  show ?case
  proof (cases "h = c")
    case True
    with Cons.prems have "p = c # hs" by simp
    with True have "h # hs = [] @ c # hs \<and> c \<notin> set [] \<and> p = c # hs" by simp
    then show ?thesis by blast
  next
    case False
    with Cons.prems have "c_strchr hs c = Some p" by simp
    then obtain pre rest where "hs = pre @ c # rest" "c \<notin> set pre" "p = c # rest"
      using Cons.IH by blast
    with False have "h # hs = (h # pre) @ c # rest \<and> c \<notin> set (h # pre) \<and> p = c # rest"
      by simp
    then show ?thesis by blast
  qed
qed

text \<open>
  Claim C1. \<^verbatim>\<open>readProcessStat\<close> looks for the closing parenthesis with \<^verbatim>\<open>strchr\<close>, which finds
  the first one. For the name \<^verbatim>\<open>my (weird) proc\<close> the eleven fields skipped start at
  \<^verbatim>\<open>proc)\<close>, and the function returns fields 13 and 14 (cmajflt = 7, utime = 111) where the
  record holds utime = 111 and stime = 222; for the name \<^verbatim>\<open>bash\<close> the same record is read
  correctly.
\<close>

theorem stat_first_parenthesis:
  "readProcessStat
     (Data ''1234 (my (weird) proc) S 1 1234 1234 0 -1 4194304 100 0 0 7 111 222 0 0 20 0 1 0 5 0 0'')
     = StatOk 7 111
   \<and> readProcessStat
     (Data ''1234 (bash) S 1 1234 1234 0 -1 4194304 100 0 0 7 111 222 0 0 20 0 1 0 5 0 0'')
     = StatOk 111 222"
  by code_simp

subsection \<open>Ranking\<close>

lemma compareProcesses_le: "compareProcesses a b \<le> 0 \<longleftrightarrow> total_time b \<le> total_time a"
  by (auto simp: compareProcesses_def)

lemma mset_insert_sorted: "mset (insert_sorted cmp x ys) = add_mset x (mset ys)"
  by (induction ys) simp_all

lemma set_insert_sorted: "set (insert_sorted cmp x ys) = insert x (set ys)"
  by (induction ys) auto

lemma sorted_insert_sorted:
  assumes "sorted_wrt (\<lambda>a b. compareProcesses a b \<le> 0) ys"
  shows "sorted_wrt (\<lambda>a b. compareProcesses a b \<le> 0) (insert_sorted compareProcesses x ys)"
  using assms
  by (induction ys) (auto simp: set_insert_sorted compareProcesses_le)

lemma insertion_qsort_sorts: "qsort_sorts insertion_qsort"
proof -
  have "mset (insertion_qsort compareProcesses xs) = mset xs
        \<and> sorted_wrt (\<lambda>a b. compareProcesses a b \<le> 0) (insertion_qsort compareProcesses xs)"
    for xs
    by (induction xs) (simp_all add: insertion_qsort_def mset_insert_sorted sorted_insert_sorted)
  then show ?thesis by (simp add: qsort_sorts_def)
qed

lemma total_time_assign:
  "map total_time (assign_percentages ps) = map total_time ps"
  by (simp add: assign_percentages_def Let_def comp_def)

lemma hd_total_time_assign:
  "ps \<noteq> [] \<Longrightarrow> total_time (hd (assign_percentages ps)) = total_time (hd ps)"
  by (simp add: assign_percentages_def Let_def hd_map)

lemma percent_assign_pos:
  assumes "0 < total_time (hd ps)"
  shows "map cpu_percent (assign_percentages ps)
           = map (\<lambda>t. Some (relative_percent t (total_time (hd ps)))) (map total_time ps)"
  using assms by (simp add: assign_percentages_def Let_def comp_def)

lemma percent_assign_members:
  assumes "0 < total_time (hd ps)"
  shows "\<forall>p\<in>set (assign_percentages ps).
           cpu_percent p = Some (relative_percent (total_time p) (total_time (hd ps)))"
  using assms by (auto simp: assign_percentages_def Let_def)

lemma relative_percent_exact:
  assumes "uint t \<le> uint m" "uint m * 100 \<le> 2 ^ 53"
  shows "relative_percent t m = fl (100 * of_int (uint t) / of_int (uint m))"
proof -
  have t0: "0 \<le> uint t" by simp
  have bt: "\<bar>uint t\<bar> \<le> 2 ^ 53" and bm: "\<bar>uint m\<bar> \<le> 2 ^ 53"
    and bp: "\<bar>100 * uint t\<bar> \<le> 2 ^ 53"
    using assms t0 by simp_all
  have a: "fl (of_int (uint t)) = of_int (uint t)" using bt by (rule fl_of_int)
  have b: "fl (of_int (uint m)) = of_int (uint m)" using bm by (rule fl_of_int)
  have c: "fl (of_int (100 * uint t)) = of_int (100 * uint t)" using bp by (rule fl_of_int)
  have c': "fl (100 * of_int (uint t)) = 100 * of_int (uint t)"
    using c by (simp only: of_int_mult of_int_numeral)
  have "dmul 100 (double_of_ulong t) = 100 * of_int (uint t)"
    by (simp only: dmul_def double_of_ulong_def a c')
  then show ?thesis
    by (simp only: relative_percent_def ddiv_def) (simp only: double_of_ulong_def b)
qed

lemma relative_percent_top:
  assumes "0 < m" "uint m * 100 \<le> 2 ^ 53"
  shows "relative_percent m m = 100"
proof -
  have "uint m \<noteq> 0" using assms(1) by (simp add: uint_0_iff)
  then have "(of_int (uint m) :: rat) \<noteq> 0" by (simp only: of_int_eq_0_iff) simp
  then have "100 * (of_int (uint m) :: rat) / of_int (uint m) = 100" by simp
  then show ?thesis
    using relative_percent_exact [OF order_refl assms(2)] by (simp only: fl_hundred)
qed

lemma ranked_props:
  assumes "qsort_sorts qsort" "processes \<noteq> []"
  shows "qsort compareProcesses processes \<noteq> []"
    and "mset (map total_time (qsort compareProcesses processes)) = mset (map total_time processes)"
    and "sorted_wrt (\<lambda>a b. total_time b \<le> total_time a) (qsort compareProcesses processes)"
    and "\<forall>p\<in>set (qsort compareProcesses processes).
           total_time p \<le> total_time (hd (qsort compareProcesses processes))"
proof -
  let ?ss = "qsort compareProcesses processes"
  have ms: "mset ?ss = mset processes"
    and so: "sorted_wrt (\<lambda>a b. compareProcesses a b \<le> 0) ?ss"
    using assms(1) by (simp_all add: qsort_sorts_def)
  show ne: "?ss \<noteq> []" using ms assms(2) by auto
  show "mset (map total_time ?ss) = mset (map total_time processes)"
    using ms by (metis mset_map)
  show s2: "sorted_wrt (\<lambda>a b. total_time b \<le> total_time a) ?ss"
    using so by (simp add: compareProcesses_le)
  show "\<forall>p\<in>set ?ss. total_time p \<le> total_time (hd ?ss)"
    using ne s2 by (cases ?ss) auto
qed

lemma descending_unique:
  fixes ks :: "64 word list"
  assumes "sorted_wrt (\<lambda>a b. b \<le> a) ks" "mset ks = mset [50, 50, 30, 10, 0]"
  shows "ks = [50, 50, 30, 10, 0]"
proof -
  have "sorted (rev ks)" using assms(1) by (simp add: sorted_wrt_rev)
  moreover have "mset (rev ks) = mset [0, 10, 30, 50, 50 :: 64 word]" using assms(2) by simp
  moreover have "sorted [0, 10, 30, 50, 50 :: 64 word]" by simp
  ultimately have "rev ks = [0, 10, 30, 50, 50]"
    by (metis properties_for_sort)
  then have "rev (rev ks) = rev [0, 10, 30, 50, 50]" by (simp only:)
  then show ?thesis by simp
qed

lemma relative_percent_zero: "relative_percent 0 m = 0"
proof -
  have "double_of_ulong 0 = 0" by (simp add: double_of_ulong_def fl_zero)
  then show ?thesis by (simp add: relative_percent_def dmul_def ddiv_def fl_zero)
qed

lemma example_percentages:
  "relative_percent 50 50 = 100" "relative_percent 30 50 = 60" "relative_percent 10 50 = 20"
  by code_simp+

text \<open>
  Claim C2, amended. For a non-empty array whose top record after \<^verbatim>\<open>qsort\<close> has a positive
  \<^verbatim>\<open>total_time\<close>: the records are the same, in descending order of \<^verbatim>\<open>total_time\<close>, and every
  record is assigned the double \<^verbatim>\<open>(100.0 * total_time) / max_time\<close>; when moreover
  \<open>100 * max_time \<le> 2^53\<close>, that is the double nearest to \<open>100 * total_time / max_time\<close>, and
  the top record's percentage is exactly 100. Records with total times 50, 50, 30, 10, 0, in
  any order, get the percentages 100, 100, 60, 20, 0.
\<close>

theorem relative_percentages:
  assumes "qsort_sorts qsort" and "processes \<noteq> []"
  shows "mset (map total_time (rank_processes qsort processes)) = mset (map total_time processes)
   \<and> sorted_wrt (\<lambda>a b. total_time b \<le> total_time a) (rank_processes qsort processes)
   \<and> (0 < total_time (hd (rank_processes qsort processes)) \<longrightarrow>
        (\<forall>p\<in>set (rank_processes qsort processes).
           cpu_percent p
             = Some (relative_percent (total_time p)
                       (total_time (hd (rank_processes qsort processes))))))
   \<and> (0 < total_time (hd (rank_processes qsort processes))
        \<and> uint (total_time (hd (rank_processes qsort processes))) * 100 \<le> 2 ^ 53 \<longrightarrow>
        cpu_percent (hd (rank_processes qsort processes)) = Some 100
        \<and> (\<forall>p\<in>set (rank_processes qsort processes).
             cpu_percent p
               = Some (fl (100 * of_int (uint (total_time p))
                           / of_int (uint (total_time (hd (rank_processes qsort processes))))))))
   \<and> (mset (map total_time processes) = mset [50, 50, 30, 10, 0] \<longrightarrow>
        map cpu_percent (rank_processes qsort processes)
          = [Some 100, Some 100, Some 60, Some 20, Some 0])"
proof -
  let ?ss = "qsort compareProcesses processes"
  let ?rs = "rank_processes qsort processes"
  let ?top = "total_time (hd ?rs)"
  note rp = ranked_props [OF assms]
  have rs: "?rs = assign_percentages ?ss" by (simp add: rank_processes_def)
  have tt: "map total_time ?rs = map total_time ?ss" by (simp add: rs total_time_assign)
  have top: "?top = total_time (hd ?ss)" using rp(1) by (simp add: rs hd_total_time_assign)
  have c1: "mset (map total_time ?rs) = mset (map total_time processes)"
    using rp(2) by (simp only: tt)
  have "sorted_wrt (\<lambda>a b. b \<le> a) (map total_time ?ss)"
    using rp(3) by (simp add: sorted_wrt_map)
  then have sd: "sorted_wrt (\<lambda>a b. b \<le> a) (map total_time ?rs)" by (simp only: tt)
  then have c2: "sorted_wrt (\<lambda>a b. total_time b \<le> total_time a) ?rs"
    by (simp add: sorted_wrt_map)
  have le_top: "\<forall>p\<in>set ?rs. total_time p \<le> ?top"
  proof
    fix p assume "p \<in> set ?rs"
    then have "total_time p \<in> set (map total_time ?ss)" unfolding tt [symmetric] by simp
    then show "total_time p \<le> ?top" using rp(4) by (auto simp: top)
  qed
  have pos: "\<forall>p\<in>set ?rs. cpu_percent p = Some (relative_percent (total_time p) ?top)"
    if "0 < ?top"
  proof -
    have "0 < total_time (hd ?ss)" using that by (simp only: top)
    then have "\<forall>p\<in>set (assign_percentages ?ss).
                 cpu_percent p = Some (relative_percent (total_time p) (total_time (hd ?ss)))"
      by (rule percent_assign_members)
    then show ?thesis unfolding top by (simp only: rs)
  qed
  have exact: "cpu_percent (hd ?rs) = Some 100
        \<and> (\<forall>p\<in>set ?rs. cpu_percent p
               = Some (fl (100 * of_int (uint (total_time p)) / of_int (uint ?top))))"
    if h: "0 < ?top \<and> uint ?top * 100 \<le> 2 ^ 53"
  proof -
    have ne: "?rs \<noteq> []" using rp(1) tt by (metis map_is_Nil_conv)
    then have hd_in: "hd ?rs \<in> set ?rs" by simp
    have "cpu_percent (hd ?rs) = Some (relative_percent ?top ?top)"
      using pos h hd_in by blast
    moreover have "relative_percent ?top ?top = 100"
      using h by (intro relative_percent_top) simp_all
    moreover have "cpu_percent p = Some (fl (100 * of_int (uint (total_time p)) / of_int (uint ?top)))"
      if "p \<in> set ?rs" for p
    proof -
      have "uint (total_time p) \<le> uint ?top"
        using le_top that by (simp add: word_le_def)
      then have "relative_percent (total_time p) ?top
                   = fl (100 * of_int (uint (total_time p)) / of_int (uint ?top))"
        using h by (intro relative_percent_exact) simp_all
      then show ?thesis using pos h that by simp
    qed
    ultimately show ?thesis by simp
  qed
  have example: "map cpu_percent ?rs = [Some 100, Some 100, Some 60, Some 20, Some 0]"
    if m: "mset (map total_time processes) = mset [50, 50, 30, 10, 0]"
  proof -
    have ks: "map total_time ?ss = [50, 50, 30, 10, 0]"
      using sd c1 m unfolding tt by (intro descending_unique) simp_all
    then have "total_time (hd ?ss) = 50" using rp(1) by (cases ?ss) auto
    then have "map cpu_percent ?rs
                 = map (\<lambda>t. Some (relative_percent t 50)) (map total_time ?ss)"
      using percent_assign_pos [of ?ss] by (simp add: rs)
    also have "\<dots> = [Some (relative_percent 50 50), Some (relative_percent 50 50),
                      Some (relative_percent 30 50), Some (relative_percent 10 50),
                      Some (relative_percent 0 50)]"
      by (simp only: ks list.map)
    also have "\<dots> = [Some 100, Some 100, Some 60, Some 20, Some 0]"
      by (simp only: example_percentages relative_percent_zero)
    finally show ?thesis .
  qed
  show ?thesis
  proof (intro conjI impI)
    show "mset (map total_time ?rs) = mset (map total_time processes)" by (rule c1)
    show "sorted_wrt (\<lambda>a b. total_time b \<le> total_time a) ?rs" by (rule c2)
    show "\<forall>p\<in>set ?rs. cpu_percent p = Some (relative_percent (total_time p) ?top)"
      if "0 < ?top" using that by (rule pos)
    show "cpu_percent (hd ?rs) = Some 100"
      if "0 < ?top \<and> uint ?top * 100 \<le> 2 ^ 53" using exact [OF that] by (rule conjunct1)
    show "\<forall>p\<in>set ?rs. cpu_percent p
               = Some (fl (100 * of_int (uint (total_time p)) / of_int (uint ?top)))"
      if "0 < ?top \<and> uint ?top * 100 \<le> 2 ^ 53" using exact [OF that] by (rule conjunct2)
    show "map cpu_percent ?rs = [Some 100, Some 100, Some 60, Some 20, Some 0]"
      if "mset (map total_time processes) = mset [50, 50, 30, 10, 0]"
      using that by (rule example)
  qed
qed

theorem relative_percentages_witness:
  "map cpu_percent
     (rank_processes insertion_qsort
        [process_record 1 ''a'' 20 10, process_record 2 ''b'' 0 0, process_record 3 ''c'' 50 0,
         process_record 4 ''d'' 4 6, process_record 5 ''e'' 25 25])
   = [Some 100, Some 100, Some 60, Some 20, Some 0]"
proof -
  let ?ps = "[process_record 1 ''a'' 20 10, process_record 2 ''b'' 0 0,
              process_record 3 ''c'' 50 0, process_record 4 ''d'' 4 6,
              process_record 5 ''e'' 25 25]"
  have ne: "?ps \<noteq> []" by simp
  have "map total_time ?ps = [30, 0, 50, 10, 50]" by (simp add: process_record_def)
  then have "mset (map total_time ?ps) = mset [50, 50, 30, 10, 0]" by simp
  with relative_percentages [OF insertion_qsort_sorts ne] show ?thesis by blast
qed

text \<open>
  The claim, which speaks of every non-empty census, fails in two places. In a census whose
  records all have \<^verbatim>\<open>total_time\<close> 0 the top record's percentage is not 100: the code does not
  reach the assignment. And for a \<^verbatim>\<open>total_time\<close> of 360287970189641 ticks the product
  \<^verbatim>\<open>100.0 * total_time\<close> is rounded, and the top record's percentage is \<open>100 - 2^-46\<close>.
\<close>

theorem relative_percentages_counterexample:
  "cpu_percent (hd (rank_processes insertion_qsort [process_record 1 ''a'' 0 0])) \<noteq> Some 100
   \<and> map cpu_percent
        (rank_processes insertion_qsort [process_record 1 ''a'' 360287970189641 0])
      = [Some (100 - 1 / 2 ^ 46)]"
proof -
  have v: "relative_percent 360287970189641 360287970189641 = 100 - 1 / 2 ^ 46"
    by code_simp
  show ?thesis
    by (simp add: rank_processes_def insertion_qsort_def assign_percentages_def
        process_record_def v)
qed

end
